theory Spec2Isabelle
  imports Complex_Main "HOL-Library.Multiset"
begin

section \<open>The mind-map layout engine of \<^verbatim>\<open>src/components/MindMap.tsx\<close>\<close>

text \<open>
  The layout is computed by the effect of \<^verbatim>\<open>MindMapComponent\<close> (lines 65--134): a first
  recursive pass \<^verbatim>\<open>calculateInitialY\<close> stores the height of every subtree in a map keyed by
  node object, a second recursive pass \<^verbatim>\<open>calculateFinalLayout\<close> assigns coordinates and
  pushes one positioned node per call, a double loop builds the links, and the canvas size
  is derived last.

  JavaScript numbers are modelled by exact rationals: every coordinate here is an
  integer multiple of a power of two, obtained by additions and halvings only, so no
  rounding is involved for trees of realistic depth. Rounding of doubles and the resource
  limits of the engine (depth of recursion, number of arguments of a spread call) are
  outside the model.
\<close>

subsection \<open>Layout constants (lines 4--7)\<close>

definition NODE_WIDTH :: rat where "NODE_WIDTH = 180"
definition NODE_HEIGHT :: rat where "NODE_HEIGHT = 80"
definition HORIZONTAL_SEPARATION :: rat where "HORIZONTAL_SEPARATION = 220"
definition VERTICAL_SEPARATION :: rat where "VERTICAL_SEPARATION = 20"

subsection \<open>Data model\<close>

text \<open>
  \<^verbatim>\<open>interface MindMapNode { title: string; children?: MindMapNode[] }\<close>.
  The optional field is an \<open>option\<close>: \<open>None\<close> is an absent \<^verbatim>\<open>children\<close> field, \<open>Some []\<close>
  an empty array. The source keys its map and its search (\<^verbatim>\<open>n.node === childNode\<close>) by
  object identity; \<open>ref\<close> is that identity (the address of the object).
\<close>

datatype MindMapNode =
  MindMapNode (ref: nat) (title: string) (children: "MindMapNode list option")

text \<open>
  The entries \<^verbatim>\<open>{ y: number; subtreeHeight: number }\<close> of \<^verbatim>\<open>nodeMap\<close>, the interfaces
  \<^verbatim>\<open>LayoutNode\<close> and \<^verbatim>\<open>LayoutLink\<close> (lines 19--29), and the object handed to
  \<^verbatim>\<open>setLayout\<close>. Record fields are global constants in HOL, so the \<^verbatim>\<open>y\<close> of a map entry is
  \<open>info_y\<close> and the coordinates of a link end are \<open>pt_x\<close> and \<open>pt_y\<close>.
\<close>

record NodeInfo =
  info_y :: rat
  subtreeHeight :: rat

record LayoutNode =
  node :: MindMapNode
  x :: rat
  y :: rat
  level :: nat

record Point =
  pt_x :: rat
  pt_y :: rat

record LayoutLink =
  source :: Point
  target :: Point

record Layout =
  nodes :: "LayoutNode list"
  links :: "LayoutLink list"
  width :: rat
  height :: rat

text \<open>
  The source raises no exception of its own. The only failure of the two passes is the
  run-time \<^verbatim>\<open>TypeError\<close> of reading a property of \<^verbatim>\<open>undefined\<close>, where a map lookup that
  the source asserts to be non-null finds no entry.
\<close>

datatype error = TypeError

type_synonym NodeMap = "nat \<rightharpoonup> NodeInfo"

subsection \<open>Pass 1: subtree heights (lines 70--81)\<close>

text \<open>
  \<open>calculateInitialY_forEach\<close> is the \<^verbatim>\<open>forEach\<close> of line 75: its accumulator is the local
  \<^verbatim>\<open>subtreeHeight\<close>, which starts at \<open>0\<close>. The map is threaded through all calls, and the
  entry of a node is written after its children were visited (line 79).
\<close>

function calculateInitialY :: "MindMapNode \<Rightarrow> NodeMap \<Rightarrow> rat \<times> NodeMap"
  and calculateInitialY_forEach :: "MindMapNode list \<Rightarrow> rat \<times> NodeMap \<Rightarrow> rat \<times> NodeMap"
where
  "calculateInitialY (MindMapNode r t cs) nodeMap =
     (let (h, nodeMap') =
            (if cs = None \<or> length (the cs) = 0
             then (NODE_HEIGHT + VERTICAL_SEPARATION, nodeMap)
             else calculateInitialY_forEach (the cs) (0, nodeMap))
      in (h, nodeMap'(r \<mapsto> \<lparr>info_y = 0, subtreeHeight = h\<rparr>)))"
| "calculateInitialY_forEach [] (h, nodeMap) = (h, nodeMap)"
| "calculateInitialY_forEach (child # rest) (h, nodeMap) =
     (let (hc, nodeMap') = calculateInitialY child nodeMap
      in calculateInitialY_forEach rest (h + hc, nodeMap'))"
  by pat_completeness auto
termination
  by (relation "measure (\<lambda>a. case a of Inl (n, _) \<Rightarrow> size n
                                   | Inr (cs, _) \<Rightarrow> size_list size cs)") auto

subsection \<open>Pass 2: coordinates (lines 86--107)\<close>

text \<open>
  The state is the pair of the array \<^verbatim>\<open>nodes\<close> and the map.
  \<open>calculateFinalLayout_forEach\<close> is the loop of lines 96--100 with its two locals
  \<^verbatim>\<open>childYOffset\<close> and \<^verbatim>\<open>childCenters\<close>. Both indices read at line 101 are in range, since
  the loop ran over a non-empty array. The node is pushed at line 104, after the loop,
  and its map entry is rewritten from the copy read at line 87 with the new \<^verbatim>\<open>y\<close>.

  The non-null assertions \<^verbatim>\<open>nodeMap.get(node)!\<close> and \<^verbatim>\<open>nodeMap.get(child)!\<close> are lookups that
  fail with \<open>TypeError\<close> on an absent key. For a leaf and for a child this is the error of
  reading \<^verbatim>\<open>subtreeHeight\<close> of \<^verbatim>\<open>undefined\<close>; for an internal node the source would go on
  with an entry that has no height. The two differ on maps that lack a node of the tree
  only, and pass 1 enters every node before pass 2 starts (lemmas \<open>pass1_dom\<close> and
  \<open>computeLayout_eq\<close>).
\<close>

function calculateFinalLayout ::
    "MindMapNode \<Rightarrow> nat \<Rightarrow> rat \<Rightarrow> LayoutNode list \<times> NodeMap
       \<Rightarrow> error + (rat \<times> LayoutNode list \<times> NodeMap)"
  and calculateFinalLayout_forEach ::
    "MindMapNode list \<Rightarrow> nat \<Rightarrow> rat \<times> rat list \<times> LayoutNode list \<times> NodeMap
       \<Rightarrow> error + (rat \<times> rat list \<times> LayoutNode list \<times> NodeMap)"
where
  "calculateFinalLayout (MindMapNode r t cs) lvl yOffset (nodes0, nodeMap) =
     (case nodeMap r of
        None \<Rightarrow> Inl TypeError
      | Some nodeInfo \<Rightarrow>
          (case (if cs = None \<or> length (the cs) = 0
                 then Inr (yOffset + subtreeHeight nodeInfo / 2, nodes0, nodeMap)
                 else (case calculateFinalLayout_forEach (the cs) (lvl + 1)
                              (yOffset, [], nodes0, nodeMap) of
                         Inl e \<Rightarrow> Inl e
                       | Inr (childYOffset, childCenters, nodes1, nodeMap1) \<Rightarrow>
                           Inr ((childCenters ! 0
                                   + childCenters ! (length childCenters - 1)) / 2,
                                nodes1, nodeMap1))) of
             Inl e \<Rightarrow> Inl e
           | Inr (yv, nodes1, nodeMap1) \<Rightarrow>
               Inr (yv,
                    nodes1 @ [\<lparr>node = MindMapNode r t cs,
                               x = of_nat lvl * HORIZONTAL_SEPARATION,
                               y = yv, level = lvl\<rparr>],
                    nodeMap1(r \<mapsto> nodeInfo\<lparr>info_y := yv\<rparr>))))"
| "calculateFinalLayout_forEach [] lvl (childYOffset, childCenters, nodes0, nodeMap) =
     Inr (childYOffset, childCenters, nodes0, nodeMap)"
| "calculateFinalLayout_forEach (child # rest) lvl
       (childYOffset, childCenters, nodes0, nodeMap) =
     (case calculateFinalLayout child lvl childYOffset (nodes0, nodeMap) of
        Inl e \<Rightarrow> Inl e
      | Inr (childLayoutY, nodes1, nodeMap1) \<Rightarrow>
          (case nodeMap1 (ref child) of
             None \<Rightarrow> Inl TypeError
           | Some childInfo \<Rightarrow>
               calculateFinalLayout_forEach rest lvl
                 (childYOffset + subtreeHeight childInfo,
                  childCenters @ [childLayoutY], nodes1, nodeMap1)))"
  by pat_completeness auto
termination
  by (relation "measure (\<lambda>a. case a of Inl (n, _) \<Rightarrow> size n
                                   | Inr (cs, _) \<Rightarrow> size_list size cs)") auto

subsection \<open>Links and canvas (lines 112--132)\<close>

text \<open>
  \<open>findNode\<close> is \<^verbatim>\<open>nodes.find(n => n.node === childNode)\<close>. The two nested \<^verbatim>\<open>forEach\<close> loops
  that push onto \<^verbatim>\<open>links\<close> are two nested folds over the accumulated array; the test
  \<^verbatim>\<open>if (source.node.children)\<close> is true of every array, the empty one included.
\<close>

definition findNode :: "LayoutNode list \<Rightarrow> MindMapNode \<Rightarrow> LayoutNode option" where
  "findNode ns childNode = find (\<lambda>n. ref (node n) = ref childNode) ns"

definition createLinks :: "LayoutNode list \<Rightarrow> LayoutLink list" where
  "createLinks ns =
     fold (\<lambda>src acc.
             case children (node src) of
               None \<Rightarrow> acc
             | Some cs \<Rightarrow>
                 fold (\<lambda>childNode acc'.
                         case findNode ns childNode of
                           None \<Rightarrow> acc'
                         | Some tgt \<Rightarrow>
                             acc' @ [\<lparr>source = \<lparr>pt_x = x src + NODE_WIDTH, pt_y = y src\<rparr>,
                                      target = \<lparr>pt_x = x tgt, pt_y = y tgt\<rparr>\<rparr>])
                      cs acc)
          ns []"

text \<open>
  The body of the effect, for the tree the component received as its prop \<^verbatim>\<open>data\<close>.
  \<^verbatim>\<open>Math.max\<close> is applied to a list that always holds the root.
\<close>

definition computeLayout :: "MindMapNode \<Rightarrow> error + Layout" where
  "computeLayout data =
     (let (totalHeight, nodeMap) = calculateInitialY data Map.empty
      in case calculateFinalLayout data 0 0 ([], nodeMap) of
           Inl e \<Rightarrow> Inl e
         | Inr (_, ns, _) \<Rightarrow>
             (let ls = createLinks ns;
                  maxX = Max (set (map x ns)) + NODE_WIDTH
              in Inr \<lparr>nodes = ns, links = ls,
                      width = maxX + 40, height = totalHeight + 40\<rparr>))"


section \<open>Notions of the specification\<close>

text \<open>The children of a node as a list; an absent field has none.\<close>

definition kids :: "MindMapNode \<Rightarrow> MindMapNode list" where
  "kids n = (case children n of None \<Rightarrow> [] | Some cs \<Rightarrow> cs)"

text \<open>
  Pre-order: the root first, then the subtree of each child in the given order.
\<close>

fun preorder :: "MindMapNode \<Rightarrow> MindMapNode list"
  and preorders :: "MindMapNode list \<Rightarrow> MindMapNode list"
where
  "preorder (MindMapNode r t cs) =
     MindMapNode r t cs # (case cs of None \<Rightarrow> [] | Some l \<Rightarrow> preorders l)"
| "preorders [] = []"
| "preorders (c # rest) = preorder c @ preorders rest"

text \<open>Post-order: the subtree of each child in the given order, then the root.\<close>

fun postorder :: "MindMapNode \<Rightarrow> MindMapNode list"
  and postorders :: "MindMapNode list \<Rightarrow> MindMapNode list"
where
  "postorder (MindMapNode r t cs) =
     (case cs of None \<Rightarrow> [] | Some l \<Rightarrow> postorders l) @ [MindMapNode r t cs]"
| "postorders [] = []"
| "postorders (c # rest) = postorder c @ postorders rest"


fun leafCount :: "MindMapNode \<Rightarrow> nat"
  and leafCounts :: "MindMapNode list \<Rightarrow> nat"
where
  "leafCount (MindMapNode r t cs) =
     (case cs of None \<Rightarrow> 1 | Some l \<Rightarrow> if l = [] then 1 else leafCounts l)"
| "leafCounts [] = 0"
| "leafCounts (c # rest) = leafCount c + leafCounts rest"

text \<open>
  Every node of the tree with its depth (the root of \<open>depths T d\<close> has depth
  \<open>d\<close>).
\<close>

fun depths :: "MindMapNode \<Rightarrow> nat \<Rightarrow> (MindMapNode \<times> nat) list"
  and depthss :: "MindMapNode list \<Rightarrow> nat \<Rightarrow> (MindMapNode \<times> nat) list"
where
  "depths (MindMapNode r t cs) d =
     (case cs of None \<Rightarrow> [] | Some l \<Rightarrow> depthss l (d + 1)) @ [(MindMapNode r t cs, d)]"
| "depthss [] d = []"
| "depthss (c # rest) d = depths c d @ depthss rest d"

text \<open>
  The invariant of the data model: no node object occurs twice in the tree, so the
  identities of its nodes are pairwise different.
\<close>

definition unshared :: "MindMapNode \<Rightarrow> bool" where
  "unshared T = distinct (map ref (postorder T))"

text \<open>
  The boxes the renderer draws for two positioned nodes, \<open>NODE_WIDTH\<close> wide and
  \<open>NODE_HEIGHT\<close> high with upper left corner \<open>(x, y - NODE_HEIGHT / 2)\<close> (lines 246--249),
  have a point in common, their borders included.
\<close>

definition boxesIntersect :: "LayoutNode \<Rightarrow> LayoutNode \<Rightarrow> bool" where
  "boxesIntersect a b =
     (x a \<le> x b + NODE_WIDTH \<and> x b \<le> x a + NODE_WIDTH
      \<and> y a - NODE_HEIGHT / 2 \<le> y b - NODE_HEIGHT / 2 + NODE_HEIGHT
      \<and> y b - NODE_HEIGHT / 2 \<le> y a - NODE_HEIGHT / 2 + NODE_HEIGHT)"

text \<open>
  The bands of the children \<open>cs\<close> of a node whose own band starts at \<open>b\<close>: the band of the
  child of index \<open>k\<close> starts at \<open>b\<close> plus the heights pass 1 returns for the children
  before it, and is as high as the height pass 1 returns for that child.
\<close>

definition bandStart :: "rat \<Rightarrow> MindMapNode list \<Rightarrow> nat \<Rightarrow> rat" where
  "bandStart b cs k =
     b + sum_list (map (\<lambda>c. fst (calculateInitialY c Map.empty)) (take k cs))"

subsection \<open>Sample trees\<close>

definition chain2 :: MindMapNode where
  "chain2 = MindMapNode 0 ''Root'' (Some [MindMapNode 1 ''A'' None])"

definition unbalanced :: MindMapNode where
  "unbalanced =
     MindMapNode 0 ''Root''
       (Some [MindMapNode 1 ''child1'' None,
              MindMapNode 2 ''child2''
                (Some [MindMapNode 3 ''g1'' (Some []),
                       MindMapNode 4 ''g2'' None,
                       MindMapNode 5 ''g3'' None])])"

section \<open>A functional view of the two passes\<close>

text \<open>One reserved vertical slot, the height of a leaf.\<close>

definition slot :: rat where
  "slot = NODE_HEIGHT + VERTICAL_SEPARATION"

text \<open>The entry pass 1 writes for a node, and the table of heights a map holds.\<close>

definition enter :: "MindMapNode \<Rightarrow> NodeMap \<Rightarrow> NodeMap" where
  "enter c m = m(ref c \<mapsto> \<lparr>info_y = 0, subtreeHeight = of_nat (leafCount c) * slot\<rparr>)"

definition htab :: "NodeMap \<Rightarrow> nat \<Rightarrow> rat" where
  "htab nm r = (case nm r of None \<Rightarrow> 0 | Some i \<Rightarrow> subtreeHeight i)"

definition pass1 :: "MindMapNode \<Rightarrow> nat \<Rightarrow> rat" where
  "pass1 T = htab (snd (calculateInitialY T Map.empty))"

text \<open>
  What pass 2 returns and what it pushes, as functions of the table of heights \<open>hf\<close>,
  the level and the offset. Lemma \<open>calculateFinalLayout_refine\<close> proves that the stateful
  pass computes exactly these.
\<close>

function ycenter :: "(nat \<Rightarrow> rat) \<Rightarrow> MindMapNode \<Rightarrow> rat \<Rightarrow> rat"
  and ycenters :: "(nat \<Rightarrow> rat) \<Rightarrow> MindMapNode list \<Rightarrow> rat \<Rightarrow> rat list"
where
  "ycenter hf (MindMapNode r t cs) yo =
     (if cs = None \<or> length (the cs) = 0 then yo + hf r / 2
      else (let ys = ycenters hf (the cs) yo in (ys ! 0 + ys ! (length ys - 1)) / 2))"
| "ycenters hf [] yo = []"
| "ycenters hf (c # rest) yo = ycenter hf c yo # ycenters hf rest (yo + hf (ref c))"
  by pat_completeness auto
termination
  by (relation "measure (\<lambda>a. case a of Inl (_, n, _) \<Rightarrow> size n
                                   | Inr (_, cs, _) \<Rightarrow> size_list size cs)") auto

function laid :: "(nat \<Rightarrow> rat) \<Rightarrow> MindMapNode \<Rightarrow> nat \<Rightarrow> rat \<Rightarrow> LayoutNode list"
  and laids :: "(nat \<Rightarrow> rat) \<Rightarrow> MindMapNode list \<Rightarrow> nat \<Rightarrow> rat \<Rightarrow> LayoutNode list"
where
  "laid hf (MindMapNode r t cs) lvl yo =
     (if cs = None \<or> length (the cs) = 0 then [] else laids hf (the cs) (lvl + 1) yo)
     @ [\<lparr>node = MindMapNode r t cs, x = of_nat lvl * HORIZONTAL_SEPARATION,
          y = ycenter hf (MindMapNode r t cs) yo, level = lvl\<rparr>]"
| "laids hf [] lvl yo = []"
| "laids hf (c # rest) lvl yo = laid hf c lvl yo @ laids hf rest lvl (yo + hf (ref c))"
  by pat_completeness auto
termination
  by (relation "measure (\<lambda>a. case a of Inl (_, n, _) \<Rightarrow> size n
                                   | Inr (_, cs, _) \<Rightarrow> size_list size cs)") auto

text \<open>
  The link pushed for a source and a target, and the links pushed for one source.
\<close>

definition linkOf :: "LayoutNode \<Rightarrow> LayoutNode \<Rightarrow> LayoutLink" where
  "linkOf src tgt = \<lparr>source = \<lparr>pt_x = x src + NODE_WIDTH, pt_y = y src\<rparr>,
                      target = \<lparr>pt_x = x tgt, pt_y = y tgt\<rparr>\<rparr>"

definition linksFrom :: "LayoutNode list \<Rightarrow> LayoutNode \<Rightarrow> LayoutLink list" where
  "linksFrom ns src =
     concat (map (\<lambda>ch. case findNode ns ch of None \<Rightarrow> [] | Some tgt \<Rightarrow> [linkOf src tgt])
                 (kids (node src)))"

section \<open>Lemmas\<close>

subsection \<open>Trees\<close>

text \<open>Facts about the traversals of a tree.\<close>

lemma self_in_postorder: "n \<in> set (postorder n)"
  by (cases n) simp

lemma children_in_postorders: "set cs \<subseteq> set (postorders cs)"
  using self_in_postorder by (induction cs) auto

lemma kids_node: "kids (MindMapNode r t cs) = (case cs of None \<Rightarrow> [] | Some l \<Rightarrow> l)"
  by (simp add: kids_def)

lemma kids_in_postorder:
  "c \<in> set (postorder n) \<longrightarrow> set (kids c) \<subseteq> set (postorder n)"
  "c \<in> set (postorders cs) \<longrightarrow> set (kids c) \<subseteq> set (postorders cs)"
proof (induction n and cs rule: postorder_postorders.induct)
  case (1 r t cs)
  then show ?case
    using children_in_postorders by (cases cs) (auto simp: kids_node)
qed auto

lemma postorder_closed:
  "P \<in> set (postorder n) \<longrightarrow> set (postorder P) \<subseteq> set (postorder n)"
  "P \<in> set (postorders cs) \<longrightarrow> set (postorder P) \<subseteq> set (postorders cs)"
proof (induction n and cs rule: postorder_postorders.induct)
  case (1 r t cs)
  then show ?case by (cases cs) auto
qed auto

lemma postorder_node_sub:
  "\<not> (cs = None \<or> length (the cs) = 0) \<Longrightarrow>
     set (postorders (the cs)) \<subseteq> set (postorder (MindMapNode r t cs))"
  by (cases cs) auto



lemma mset_kids:
  "mset (concat (map kids (postorder n))) + {#n#} = mset (postorder n)"
  "mset (concat (map kids (postorders cs))) + mset cs = mset (postorders cs)"
proof (induction n and cs rule: postorder_postorders.induct)
  case (1 r t cs)
  then show ?case by (cases cs) (auto simp: kids_node)
next
  case 2
  then show ?case by simp
next
  case (3 c rest)
  have "mset (concat (map kids (postorders (c # rest)))) + mset (c # rest)
      = (mset (concat (map kids (postorder c))) + {#c#})
        + (mset (concat (map kids (postorders rest))) + mset rest)"
    by simp
  also have "\<dots> = mset (postorder c) + mset (postorders rest)"
    using 3 by simp
  finally show ?case by simp
qed

lemma distinct_kids:
  assumes "distinct (map ref (postorder T))"
  shows "distinct (map ref (concat (map kids (postorder T))))"
proof -
  have "mset (map ref (concat (map kids (postorder T))) @ [ref T])
          = mset (map ref (postorder T))"
    using arg_cong[OF mset_kids(1)[of T], of "image_mset ref"] by simp
  then have "distinct (map ref (concat (map kids (postorder T))) @ [ref T])"
    using assms mset_eq_imp_distinct_iff by blast
  then show ?thesis by simp
qed

lemma leafCount_node:
  "\<not> (cs = None \<or> length (the cs) = 0) \<Longrightarrow>
     leafCount (MindMapNode r t cs) = leafCounts (the cs)"
  "cs = None \<or> length (the cs) = 0 \<Longrightarrow> leafCount (MindMapNode r t cs) = 1"
  by (cases cs; auto)+

lemma unshared_unbalanced: "unshared unbalanced"
  by (simp add: unshared_def unbalanced_def)

lemma unshared_chain2: "unshared chain2"
  by (simp add: unshared_def chain2_def)

subsection \<open>Pass 1\<close>

text \<open>
  The height pass 1 returns counts the leaves, and the map it leaves holds one entry per
  node, written in post-order.
\<close>

lemma slot_val: "slot = 100"
  by (simp add: slot_def NODE_HEIGHT_def VERTICAL_SEPARATION_def)

lemma calculateInitialY_value:
  "fst (calculateInitialY n m) = of_nat (leafCount n) * slot"
  "fst (calculateInitialY_forEach cs hm) = fst hm + of_nat (leafCounts cs) * slot"
proof (induction n m and cs hm rule: calculateInitialY_calculateInitialY_forEach.induct)
  case (1 r t cs nodeMap)
  then show ?case
    by (cases cs) (auto simp: slot_def split: prod.splits)
next
  case (2 h nodeMap)
  then show ?case by simp
next
  case (3 child rest h nodeMap)
  then show ?case
    by (auto simp: algebra_simps split: prod.splits)
qed

lemma enter_node:
  "enter (MindMapNode r t cs) m =
     m(r \<mapsto> \<lparr>info_y = 0, subtreeHeight = of_nat (leafCount (MindMapNode r t cs)) * slot\<rparr>)"
  by (simp add: enter_def)

lemma calculateInitialY_map:
  "snd (calculateInitialY n m) = fold enter (postorder n) m"
  "snd (calculateInitialY_forEach cs hm) = fold enter (postorders cs) (snd hm)"
proof (induction n m and cs hm rule: calculateInitialY_calculateInitialY_forEach.induct)
  case (1 r t cs nodeMap)
  have v: "fst (calculateInitialY (MindMapNode r t cs) nodeMap)
             = of_nat (leafCount (MindMapNode r t cs)) * slot"
    by (rule calculateInitialY_value)
  show ?case
  proof (cases "cs = None \<or> length (the cs) = 0")
    case True
    then show ?thesis
      by (cases cs) (auto simp: enter_node slot_def)
  next
    case False
    then obtain l where l: "cs = Some l" "l \<noteq> []" by (cases cs) auto
    from 1 False have ih: "snd (calculateInitialY_forEach (the cs) (0, nodeMap))
          = fold enter (postorders (the cs)) nodeMap" by simp
    have "fst (calculateInitialY_forEach l (0, nodeMap)) = of_nat (leafCounts l) * slot"
      using calculateInitialY_value(2)[of l "(0, nodeMap)"] by simp
    with ih l show ?thesis
      by (auto simp: enter_node split: prod.splits)
  qed
next
  case (2 h nodeMap)
  then show ?case by simp
next
  case (3 child rest h nodeMap)
  then show ?case
    by (auto split: prod.splits)
qed

lemma fold_enter_other: "r \<notin> ref ` set xs \<Longrightarrow> fold enter xs m r = m r"
  by (induction xs arbitrary: m) (auto simp: enter_def)

lemma fold_enter_dom: "dom (fold enter xs m) = dom m \<union> ref ` set xs"
  by (induction xs arbitrary: m) (auto simp: enter_def)

lemma fold_enter_lookup:
  "distinct (map ref xs) \<Longrightarrow> c \<in> set xs \<Longrightarrow>
     fold enter xs m (ref c) = Some \<lparr>info_y = 0, subtreeHeight = of_nat (leafCount c) * slot\<rparr>"
proof (induction xs arbitrary: m)
  case Nil
  then show ?case by simp
next
  case (Cons a xs)
  show ?case
  proof (cases "c = a")
    case True
    with Cons.prems have "ref c \<notin> ref ` set xs" by auto
    then have "fold enter xs (enter a m) (ref c) = enter a m (ref c)"
      by (rule fold_enter_other)
    moreover have "enter a m (ref c)
        = Some \<lparr>info_y = 0, subtreeHeight = of_nat (leafCount c) * slot\<rparr>"
      using True by (simp add: enter_def)
    ultimately show ?thesis by simp
  next
    case False
    with Cons show ?thesis by auto
  qed
qed

lemma pass1_dom: "ref ` set (postorder T) \<subseteq> dom (snd (calculateInitialY T m))"
  by (simp add: calculateInitialY_map fold_enter_dom)

lemma pass1_height:
  assumes "unshared T" "c \<in> set (postorder T)"
  shows "pass1 T (ref c) = of_nat (leafCount c) * slot"
  using fold_enter_lookup[of "postorder T" c Map.empty] assms
  by (simp add: pass1_def htab_def calculateInitialY_map unshared_def)

lemma pass1_ok:
  "unshared T \<Longrightarrow> \<forall>c \<in> set (postorder T). pass1 T (ref c) = of_nat (leafCount c) * slot"
  using pass1_height by blast

subsection \<open>Pass 2\<close>

text \<open>
  The stateful pass computes the functional view, never fails on a map that holds every
  node of the tree, and changes no stored height.
\<close>

lemma htab_upd:
  "nm r = Some i \<Longrightarrow> htab nm1 = htab nm \<Longrightarrow> htab (nm1(r \<mapsto> i\<lparr>info_y := v\<rparr>)) = htab nm"
  by (auto simp: htab_def fun_eq_iff)

lemma calculateFinalLayout_refine:
  "ref ` set (postorder n) \<subseteq> dom (snd nsnm) \<longrightarrow>
     (\<exists>nm'. calculateFinalLayout n lvl yo nsnm
              = Inr (ycenter (htab (snd nsnm)) n yo,
                     fst nsnm @ laid (htab (snd nsnm)) n lvl yo, nm')
           \<and> htab nm' = htab (snd nsnm) \<and> dom nm' = dom (snd nsnm))"
  "ref ` set (postorders cs) \<subseteq> dom (snd (snd (snd st))) \<longrightarrow>
     (\<exists>nm'. calculateFinalLayout_forEach cs lvl st
              = Inr (fst st + sum_list (map (\<lambda>c. htab (snd (snd (snd st))) (ref c)) cs),
                     fst (snd st) @ ycenters (htab (snd (snd (snd st)))) cs (fst st),
                     fst (snd (snd st)) @ laids (htab (snd (snd (snd st)))) cs lvl (fst st), nm')
           \<and> htab nm' = htab (snd (snd (snd st))) \<and> dom nm' = dom (snd (snd (snd st))))"
proof (induction n lvl yo nsnm and cs lvl st
       rule: calculateFinalLayout_calculateFinalLayout_forEach.induct)
  case (1 r t cs lvl yOffset nodes0 nodeMap)
  show ?case
  proof
    assume sub: "ref ` set (postorder (MindMapNode r t cs)) \<subseteq> dom (snd (nodes0, nodeMap))"
    then obtain nodeInfo where ni: "nodeMap r = Some nodeInfo" by auto
    show "\<exists>nm'. calculateFinalLayout (MindMapNode r t cs) lvl yOffset (nodes0, nodeMap)
              = Inr (ycenter (htab (snd (nodes0, nodeMap))) (MindMapNode r t cs) yOffset,
                     fst (nodes0, nodeMap) @ laid (htab (snd (nodes0, nodeMap))) (MindMapNode r t cs) lvl yOffset, nm')
           \<and> htab nm' = htab (snd (nodes0, nodeMap)) \<and> dom nm' = dom (snd (nodes0, nodeMap))"
    proof (cases "cs = None \<or> length (the cs) = 0")
      case True
      have "htab nodeMap r = subtreeHeight nodeInfo" using ni by (simp add: htab_def)
      moreover have "htab (nodeMap(r \<mapsto> nodeInfo\<lparr>info_y := yOffset + subtreeHeight nodeInfo / 2\<rparr>)) = htab nodeMap"
        using ni by (intro htab_upd) auto
      moreover have "dom (nodeMap(r \<mapsto> nodeInfo\<lparr>info_y := yOffset + subtreeHeight nodeInfo / 2\<rparr>)) = dom nodeMap"
        using ni by auto
      ultimately show ?thesis using True ni by simp
    next
      case False
      then obtain l where l: "cs = Some l" "l \<noteq> []" by (cases cs) auto
      from sub l have "ref ` set (postorders l) \<subseteq> dom nodeMap" by auto
      with 1[OF ni False] l obtain nm1 where
        fe: "calculateFinalLayout_forEach l (lvl + 1) (yOffset, [], nodes0, nodeMap)
               = Inr (yOffset + sum_list (map (\<lambda>c. htab nodeMap (ref c)) l),
                      ycenters (htab nodeMap) l yOffset,
                      nodes0 @ laids (htab nodeMap) l (lvl + 1) yOffset, nm1)"
        and h1: "htab nm1 = htab nodeMap" and d1: "dom nm1 = dom nodeMap"
        by auto
      let ?yv = "ycenter (htab nodeMap) (MindMapNode r t cs) yOffset"
      have "htab (nm1(r \<mapsto> nodeInfo\<lparr>info_y := ?yv\<rparr>)) = htab nodeMap"
        using ni h1 by (intro htab_upd) auto
      moreover have "dom (nm1(r \<mapsto> nodeInfo\<lparr>info_y := ?yv\<rparr>)) = dom nodeMap"
        using ni d1 by auto
      ultimately show ?thesis using False ni l fe by (simp add: Let_def)
    qed
  qed
next
  case (2 lvl childYOffset childCenters nodes0 nodeMap)
  then show ?case by simp
next
  case (3 child rest lvl childYOffset childCenters nodes0 nodeMap)
  show ?case
  proof
    assume sub: "ref ` set (postorders (child # rest))
                   \<subseteq> dom (snd (snd (snd (childYOffset, childCenters, nodes0, nodeMap))))"
    then have subc: "ref ` set (postorder child) \<subseteq> dom nodeMap"
      and subr: "ref ` set (postorders rest) \<subseteq> dom nodeMap" by auto
    from 3(1) subc obtain nm1 where
      c1: "calculateFinalLayout child lvl childYOffset (nodes0, nodeMap)
             = Inr (ycenter (htab nodeMap) child childYOffset,
                    nodes0 @ laid (htab nodeMap) child lvl childYOffset, nm1)"
      and h1: "htab nm1 = htab nodeMap" and d1: "dom nm1 = dom nodeMap"
      by auto
    have "ref child \<in> dom nm1" using subc d1 self_in_postorder[of child] by auto
    then obtain childInfo where ci: "nm1 (ref child) = Some childInfo" by auto
    then have hc: "subtreeHeight childInfo = htab nodeMap (ref child)"
      using h1 by (auto simp: htab_def fun_eq_iff split: option.splits dest: spec[of _ "ref child"])
    from subr d1 have subr1: "ref ` set (postorders rest) \<subseteq> dom nm1" by simp
    from 3(2)[OF c1 refl refl ci] subr1 h1 d1 obtain nm2 where
      "calculateFinalLayout_forEach rest lvl
          (childYOffset + subtreeHeight childInfo,
           childCenters @ [ycenter (htab nodeMap) child childYOffset],
           nodes0 @ laid (htab nodeMap) child lvl childYOffset, nm1)
        = Inr (childYOffset + subtreeHeight childInfo
                 + sum_list (map (\<lambda>c. htab nodeMap (ref c)) rest),
               (childCenters @ [ycenter (htab nodeMap) child childYOffset])
                 @ ycenters (htab nodeMap) rest (childYOffset + subtreeHeight childInfo),
               (nodes0 @ laid (htab nodeMap) child lvl childYOffset)
                 @ laids (htab nodeMap) rest lvl (childYOffset + subtreeHeight childInfo), nm2)"
      and "htab nm2 = htab nodeMap" and "dom nm2 = dom nodeMap"
      by auto
    then show "\<exists>nm'. calculateFinalLayout_forEach (child # rest) lvl (childYOffset, childCenters, nodes0, nodeMap)
              = Inr (fst (childYOffset, childCenters, nodes0, nodeMap) + sum_list (map (\<lambda>c. htab (snd (snd (snd (childYOffset, childCenters, nodes0, nodeMap)))) (ref c)) (child # rest)),
                     fst (snd (childYOffset, childCenters, nodes0, nodeMap)) @ ycenters (htab (snd (snd (snd (childYOffset, childCenters, nodes0, nodeMap))))) (child # rest) (fst (childYOffset, childCenters, nodes0, nodeMap)),
                     fst (snd (snd (childYOffset, childCenters, nodes0, nodeMap))) @ laids (htab (snd (snd (snd (childYOffset, childCenters, nodes0, nodeMap))))) (child # rest) lvl (fst (childYOffset, childCenters, nodes0, nodeMap)), nm')
           \<and> htab nm' = htab (snd (snd (snd (childYOffset, childCenters, nodes0, nodeMap)))) \<and> dom nm' = dom (snd (snd (snd (childYOffset, childCenters, nodes0, nodeMap))))"
      using c1 ci hc by (simp add: add.assoc)
  qed
qed

lemma call_result:
  assumes "ref ` set (postorder n) \<subseteq> dom nm"
  shows "\<exists>nm'. calculateFinalLayout n lvl yo (ns, nm)
            = Inr (ycenter (htab nm) n yo, ns @ laid (htab nm) n lvl yo, nm')
          \<and> htab nm' = htab nm \<and> dom nm' = dom nm"
  using calculateFinalLayout_refine(1)[where n = n and nsnm = "(ns, nm)" and lvl = lvl and yo = yo]
    assms by simp

lemma loop_result:
  assumes "ref ` set (postorders cs) \<subseteq> dom nm"
  shows "\<exists>nm'. calculateFinalLayout_forEach cs lvl (yo, ce, ns, nm)
            = Inr (yo + sum_list (map (\<lambda>c. htab nm (ref c)) cs),
                   ce @ ycenters (htab nm) cs yo, ns @ laids (htab nm) cs lvl yo, nm')
          \<and> htab nm' = htab nm \<and> dom nm' = dom nm"
  using calculateFinalLayout_refine(2)[where cs = cs and st = "(yo, ce, ns, nm)" and lvl = lvl]
    assms by simp

lemma sameHeights_htab:
  assumes "\<forall>r. map_option subtreeHeight (m r) = map_option subtreeHeight (m' r)"
  shows "htab m = htab m'" and "dom m = dom m'"
proof -
  show "htab m = htab m'"
  proof
    fix r
    from assms have "map_option subtreeHeight (m r) = map_option subtreeHeight (m' r)" by blast
    then show "htab m r = htab m' r"
      by (cases "m r"; cases "m' r") (auto simp: htab_def)
  qed
  show "dom m = dom m'"
  proof (rule set_eqI)
    fix r
    from assms have "map_option subtreeHeight (m r) = map_option subtreeHeight (m' r)" by blast
    then show "r \<in> dom m \<longleftrightarrow> r \<in> dom m'"
      by (cases "m r"; cases "m' r") auto
  qed
qed

lemma calculateFinalLayout_keeps_heights:
  assumes "ref ` set (postorder n) \<subseteq> dom nm"
  shows "\<exists>yv ns' nm'. calculateFinalLayout n lvl yo (ns, nm) = Inr (yv, ns', nm')
          \<and> (\<forall>r. map_option subtreeHeight (nm' r) = map_option subtreeHeight (nm r))"
proof -
  from calculateFinalLayout_refine(1)[of n "(ns, nm)" lvl yo] assms obtain nm' where
    r: "calculateFinalLayout n lvl yo (ns, nm)
          = Inr (ycenter (htab nm) n yo, ns @ laid (htab nm) n lvl yo, nm')"
    and h: "htab nm' = htab nm" and d: "dom nm' = dom nm" by auto
  have "\<forall>r. map_option subtreeHeight (nm' r) = map_option subtreeHeight (nm r)"
  proof
    fix r
    from h have "htab nm' r = htab nm r" by simp
    moreover from d have "r \<in> dom nm' \<longleftrightarrow> r \<in> dom nm" by simp
    ultimately show "map_option subtreeHeight (nm' r) = map_option subtreeHeight (nm r)"
      by (cases "nm r"; cases "nm' r") (auto simp: htab_def)
  qed
  with r show ?thesis by blast
qed

lemma computeLayout_eq:
  "computeLayout T =
     Inr \<lparr>nodes = laid (pass1 T) T 0 0,
          links = createLinks (laid (pass1 T) T 0 0),
          width = Max (set (map x (laid (pass1 T) T 0 0))) + NODE_WIDTH + 40,
          height = of_nat (leafCount T) * slot + 40\<rparr>"
proof -
  obtain h nm where p1: "calculateInitialY T Map.empty = (h, nm)" by (cases "calculateInitialY T Map.empty")
  have h: "h = of_nat (leafCount T) * slot"
    using calculateInitialY_value(1)[of T Map.empty] p1 by simp
  have "ref ` set (postorder T) \<subseteq> dom nm"
    using pass1_dom[of T Map.empty] p1 by simp
  then obtain nm' where
    "calculateFinalLayout T 0 0 ([], nm) = Inr (ycenter (htab nm) T 0, laid (htab nm) T 0 0, nm')"
    using calculateFinalLayout_refine(1)[of T "([], nm)" 0 0] by auto
  moreover have "pass1 T = htab nm" using p1 by (simp add: pass1_def)
  ultimately show ?thesis using p1 h
    by (simp add: computeLayout_def Let_def)
qed

lemma forEach_append:
  "calculateFinalLayout_forEach (as @ bs) lvl (yo, ce, ns, nm) =
     (case calculateFinalLayout_forEach as lvl (yo, ce, ns, nm) of
        Inl e \<Rightarrow> Inl e
      | Inr st \<Rightarrow> calculateFinalLayout_forEach bs lvl st)"
  by (induction as arbitrary: yo ce ns nm) (auto split: sum.splits option.splits)

lemma forEach_reaches_child:
  assumes "i < length cs"
  shows "calculateFinalLayout_forEach cs lvl (yo, ce, ns, nm) =
     (case calculateFinalLayout_forEach (take i cs) lvl (yo, ce, ns, nm) of
        Inl e \<Rightarrow> Inl e
      | Inr (childYOffset, childCenters, nodes0, nodeMap) \<Rightarrow>
          (case calculateFinalLayout (cs ! i) lvl childYOffset (nodes0, nodeMap) of
             Inl e \<Rightarrow> Inl e
           | Inr (childLayoutY, nodes1, nodeMap1) \<Rightarrow>
               (case nodeMap1 (ref (cs ! i)) of
                  None \<Rightarrow> Inl TypeError
                | Some childInfo \<Rightarrow>
                    calculateFinalLayout_forEach (drop (Suc i) cs) lvl
                      (childYOffset + subtreeHeight childInfo,
                       childCenters @ [childLayoutY], nodes1, nodeMap1))))"
proof -
  have "cs = take i cs @ cs ! i # drop (Suc i) cs"
    using assms by (rule id_take_nth_drop)
  then have "calculateFinalLayout_forEach cs lvl (yo, ce, ns, nm)
      = calculateFinalLayout_forEach (take i cs @ cs ! i # drop (Suc i) cs) lvl (yo, ce, ns, nm)"
    by simp
  also have "\<dots> = (case calculateFinalLayout_forEach (take i cs) lvl (yo, ce, ns, nm) of
        Inl e \<Rightarrow> Inl e
      | Inr st \<Rightarrow> calculateFinalLayout_forEach (cs ! i # drop (Suc i) cs) lvl st)"
    by (rule forEach_append)
  finally show ?thesis
    by (auto split: sum.splits)
qed

subsection \<open>The pushed nodes\<close>

text \<open>Order, levels and columns of the pushed nodes.\<close>

lemma laid_nodes:
  "map node (laid hf n lvl yo) = postorder n"
  "map node (laids hf cs lvl yo) = postorders cs"
proof (induction hf n lvl yo and hf cs lvl yo rule: laid_laids.induct)
  case (1 hf r t cs lvl yo)
  then show ?case by (cases cs) auto
qed auto

lemma laid_depths:
  "map (\<lambda>ln. (node ln, level ln)) (laid hf n lvl yo) = depths n lvl"
  "map (\<lambda>ln. (node ln, level ln)) (laids hf cs lvl yo) = depthss cs lvl"
proof (induction hf n lvl yo and hf cs lvl yo rule: laid_laids.induct)
  case (1 hf r t cs lvl yo)
  then show ?case by (cases cs) auto
qed auto

lemma laid_x:
  "\<forall>ln \<in> set (laid hf n lvl yo). x ln = of_nat (level ln) * HORIZONTAL_SEPARATION"
  "\<forall>ln \<in> set (laids hf cs lvl yo). x ln = of_nat (level ln) * HORIZONTAL_SEPARATION"
proof (induction hf n lvl yo and hf cs lvl yo rule: laid_laids.induct)
  case (1 hf r t cs lvl yo)
  then show ?case by (cases cs) auto
qed auto

lemma laid_level_x:
  "\<forall>ln \<in> set (laid hf n lvl yo). of_nat lvl * HORIZONTAL_SEPARATION \<le> x ln"
  "\<forall>ln \<in> set (laids hf cs lvl yo). of_nat lvl * HORIZONTAL_SEPARATION \<le> x ln"
proof (induction hf n lvl yo and hf cs lvl yo rule: laid_laids.induct)
  case (1 hf r t cs lvl yo)
  have "of_nat lvl * HORIZONTAL_SEPARATION \<le> of_nat (lvl + 1) * HORIZONTAL_SEPARATION"
    by (simp add: HORIZONTAL_SEPARATION_def algebra_simps)
  with 1 show ?case by (cases cs) (fastforce split: if_splits)+
qed auto

lemma laid_last:
  "laid hf n lvl yo \<noteq> []"
  "node (last (laid hf n lvl yo)) = n"
  "y (last (laid hf n lvl yo)) = ycenter hf n yo"
  by (cases n; simp)+

lemma root_last:
  "laid hf n lvl yo \<noteq> [] \<and> node (last (laid hf n lvl yo)) = n \<and> level (last (laid hf n lvl yo)) = lvl"
  by (cases n) simp

lemma laid_subtree:
  "P \<in> set (postorder n) \<longrightarrow>
     (\<exists>lvl' yo' pre post. laid hf n lvl yo = pre @ laid hf P lvl' yo' @ post
        \<and> (P = n \<longrightarrow> lvl' = lvl \<and> yo' = yo \<and> pre = []))"
  "P \<in> set (postorders cs) \<longrightarrow>
     (\<exists>lvl' yo' pre post. laids hf cs lvl yo = pre @ laid hf P lvl' yo' @ post)"
proof (induction hf n lvl yo and hf cs lvl yo rule: laid_laids.induct)
  case (1 hf r t cs lvl yo)
  let ?n = "MindMapNode r t cs"
  show ?case
  proof
    assume P: "P \<in> set (postorder ?n)"
    show "\<exists>lvl' yo' pre post. laid hf ?n lvl yo = pre @ laid hf P lvl' yo' @ post
        \<and> (P = ?n \<longrightarrow> lvl' = lvl \<and> yo' = yo \<and> pre = [])"
    proof (cases "P = ?n")
      case True
      have "laid hf ?n lvl yo = [] @ laid hf P lvl yo @ []" using True by simp
      then show ?thesis by blast
    next
      case False
      with P obtain l where l: "cs = Some l" "P \<in> set (postorders l)"
        by (cases cs) auto
      then have nl: "\<not> (cs = None \<or> length (the cs) = 0)" by auto
      from "1.IH"[OF nl] l obtain lvl' yo' pre post where
        "laids hf l (lvl + 1) yo = pre @ laid hf P lvl' yo' @ post" by auto
      then have "laid hf ?n lvl yo = pre @ laid hf P lvl' yo' @
          (post @ [\<lparr>node = ?n, x = of_nat lvl * HORIZONTAL_SEPARATION,
                     y = ycenter hf ?n yo, level = lvl\<rparr>])"
        using l nl by simp
      with False show ?thesis by blast
    qed
  qed
next
  case (2 hf lvl yo)
  then show ?case by simp
next
  case (3 hf c rest lvl yo)
  show ?case
  proof
    assume "P \<in> set (postorders (c # rest))"
    then consider "P \<in> set (postorder c)" | "P \<in> set (postorders rest)" by auto
    then show "\<exists>lvl' yo' pre post. laids hf (c # rest) lvl yo = pre @ laid hf P lvl' yo' @ post"
    proof cases
      case 1
      with "3.IH"(1) obtain lvl' yo' pre post where
        "laid hf c lvl yo = pre @ laid hf P lvl' yo' @ post" by blast
      then have "laids hf (c # rest) lvl yo
          = pre @ laid hf P lvl' yo' @ (post @ laids hf rest lvl (yo + hf (ref c)))" by simp
      then show ?thesis by blast
    next
      case 2
      with "3.IH"(2) obtain lvl' yo' pre post where
        "laids hf rest lvl (yo + hf (ref c)) = pre @ laid hf P lvl' yo' @ post" by blast
      then have "laids hf (c # rest) lvl yo
          = (laid hf c lvl yo @ pre) @ laid hf P lvl' yo' @ post" by simp
      then show ?thesis by blast
    qed
  qed
qed

lemma computeLayout_pushes_postorder:
  "\<exists>L. computeLayout T = Inr L \<and> map node (nodes L) = postorder T"
  by (simp add: computeLayout_eq laid_nodes)

subsection \<open>Vertical positions\<close>

text \<open>
  Every centre lies at least half a slot inside the band of its subtree, so the bands of
  siblings keep their boxes apart.
\<close>

lemma midpoint_bounds:
  fixes a b lo hi :: rat
  assumes "lo \<le> a" "a \<le> hi" "lo \<le> b" "b \<le> hi"
  shows "lo \<le> (a + b) / 2 \<and> (a + b) / 2 \<le> hi"
  using assms by (auto simp: field_simps)

lemma length_ycenters: "length (ycenters hf cs yo) = length cs"
  by (induction cs arbitrary: yo) auto

lemma ycenter_bounds:
  "(\<forall>c \<in> set (postorder n). hf (ref c) = of_nat (leafCount c) * slot) \<longrightarrow>
     yo + slot / 2 \<le> ycenter hf n yo
     \<and> ycenter hf n yo \<le> yo + of_nat (leafCount n) * slot - slot / 2"
  "(\<forall>c \<in> set (postorders cs). hf (ref c) = of_nat (leafCount c) * slot) \<longrightarrow>
     (\<forall>v \<in> set (ycenters hf cs yo).
        yo + slot / 2 \<le> v \<and> v \<le> yo + of_nat (leafCounts cs) * slot - slot / 2)"
proof (induction hf n yo and hf cs yo rule: ycenter_ycenters.induct)
  case (1 hf r t cs yo)
  show ?case
  proof
    assume ok: "\<forall>c \<in> set (postorder (MindMapNode r t cs)). hf (ref c) = of_nat (leafCount c) * slot"
    show "yo + slot / 2 \<le> ycenter hf (MindMapNode r t cs) yo
     \<and> ycenter hf (MindMapNode r t cs) yo \<le> yo + of_nat (leafCount (MindMapNode r t cs)) * slot - slot / 2"
    proof (cases "cs = None \<or> length (the cs) = 0")
      case True
      have l1: "leafCount (MindMapNode r t cs) = 1"
        using True by (rule leafCount_node)
      have "hf (ref (MindMapNode r t cs)) = of_nat (leafCount (MindMapNode r t cs)) * slot"
        using ok self_in_postorder[of "MindMapNode r t cs"] by blast
      then have "hf r = slot" unfolding l1 by simp
      then show ?thesis using True unfolding l1 by simp
    next
      case False
      let ?ys = "ycenters hf (the cs) yo"
      have lc: "leafCount (MindMapNode r t cs) = leafCounts (the cs)"
        using False by (rule leafCount_node)
      have ok': "\<forall>c \<in> set (postorders (the cs)). hf (ref c) = of_nat (leafCount c) * slot"
        using ok postorder_node_sub[OF False, of r t] by blast
      with 1 False have b: "\<forall>v \<in> set ?ys.
        yo + slot / 2 \<le> v \<and> v \<le> yo + of_nat (leafCounts (the cs)) * slot - slot / 2"
        by blast
      have len: "0 < length ?ys" using False by (auto simp: length_ycenters)
      then have "?ys ! 0 \<in> set ?ys" "?ys ! (length ?ys - 1) \<in> set ?ys"
        by auto
      with b have
        "yo + slot / 2 \<le> ?ys ! 0" "?ys ! 0 \<le> yo + of_nat (leafCounts (the cs)) * slot - slot / 2"
        "yo + slot / 2 \<le> ?ys ! (length ?ys - 1)"
        "?ys ! (length ?ys - 1) \<le> yo + of_nat (leafCounts (the cs)) * slot - slot / 2"
        by blast+
      then have "yo + slot / 2 \<le> (?ys ! 0 + ?ys ! (length ?ys - 1)) / 2
        \<and> (?ys ! 0 + ?ys ! (length ?ys - 1)) / 2 \<le> yo + of_nat (leafCounts (the cs)) * slot - slot / 2"
        by (rule midpoint_bounds)
      moreover obtain l where "cs = Some l" "l \<noteq> []" using False by (cases cs) auto
      ultimately show ?thesis unfolding lc by (simp add: Let_def)
    qed
  qed
next
  case (2 hf yo)
  then show ?case by simp
next
  case (3 hf c rest yo)
  show ?case
  proof
    assume ok: "\<forall>c \<in> set (postorders (c # rest)). hf (ref c) = of_nat (leafCount c) * slot"
    then have okc: "\<forall>c \<in> set (postorder c). hf (ref c) = of_nat (leafCount c) * slot"
      and okr: "\<forall>c \<in> set (postorders rest). hf (ref c) = of_nat (leafCount c) * slot"
      by auto
    have hc: "hf (ref c) = of_nat (leafCount c) * slot"
      using okc self_in_postorder[of c] by blast
    from 3(1) okc have bc: "yo + slot / 2 \<le> ycenter hf c yo"
      "ycenter hf c yo \<le> yo + of_nat (leafCount c) * slot - slot / 2" by blast+
    from 3(2) okr have br: "\<forall>v \<in> set (ycenters hf rest (yo + hf (ref c))).
        yo + hf (ref c) + slot / 2 \<le> v
        \<and> v \<le> yo + hf (ref c) + of_nat (leafCounts rest) * slot - slot / 2" by blast
    have p1: "(0::rat) \<le> of_nat (leafCounts rest) * slot" by (simp add: slot_val)
    have p2: "(0::rat) \<le> of_nat (leafCount c) * slot" by (simp add: slot_val)
    show "\<forall>v \<in> set (ycenters hf (c # rest) yo).
        yo + slot / 2 \<le> v \<and> v \<le> yo + of_nat (leafCounts (c # rest)) * slot - slot / 2"
    proof
      fix v assume "v \<in> set (ycenters hf (c # rest) yo)"
      then consider "v = ycenter hf c yo" | "v \<in> set (ycenters hf rest (yo + hf (ref c)))"
        by auto
      then show "yo + slot / 2 \<le> v \<and> v \<le> yo + of_nat (leafCounts (c # rest)) * slot - slot / 2"
      proof cases
        case 1
        with bc p1 show ?thesis by (simp add: algebra_simps)
      next
        case 2
        with br hc p2 show ?thesis by (auto simp: algebra_simps)
      qed
    qed
  qed
qed

lemma laid_bounds:
  "(\<forall>c \<in> set (postorder n). hf (ref c) = of_nat (leafCount c) * slot) \<longrightarrow>
     (\<forall>ln \<in> set (laid hf n lvl yo).
        yo + slot / 2 \<le> y ln \<and> y ln \<le> yo + of_nat (leafCount n) * slot - slot / 2
        \<and> lvl \<le> level ln)"
  "(\<forall>c \<in> set (postorders cs). hf (ref c) = of_nat (leafCount c) * slot) \<longrightarrow>
     (\<forall>ln \<in> set (laids hf cs lvl yo).
        yo + slot / 2 \<le> y ln \<and> y ln \<le> yo + of_nat (leafCounts cs) * slot - slot / 2
        \<and> lvl \<le> level ln)"
proof (induction hf n lvl yo and hf cs lvl yo rule: laid_laids.induct)
  case (1 hf r t cs lvl yo)
  let ?n = "MindMapNode r t cs"
  show ?case
  proof (intro impI ballI)
    fix ln
    assume ok: "\<forall>c \<in> set (postorder ?n). hf (ref c) = of_nat (leafCount c) * slot"
      and ln: "ln \<in> set (laid hf ?n lvl yo)"
    let ?me = "\<lparr>node = ?n, x = of_nat lvl * HORIZONTAL_SEPARATION, y = ycenter hf ?n yo, level = lvl\<rparr>"
    from ln consider "ln = ?me"
      | "\<not> (cs = None \<or> length (the cs) = 0)" "ln \<in> set (laids hf (the cs) (lvl + 1) yo)"
      by (auto split: if_splits)
    then show "yo + slot / 2 \<le> y ln \<and> y ln \<le> yo + of_nat (leafCount ?n) * slot - slot / 2
        \<and> lvl \<le> level ln"
    proof cases
      case 1
      have "yo + slot / 2 \<le> ycenter hf ?n yo
            \<and> ycenter hf ?n yo \<le> yo + of_nat (leafCount ?n) * slot - slot / 2"
        using ycenter_bounds(1)[of ?n hf yo] ok by blast
      then show ?thesis unfolding 1 by simp
    next
      case 2
      have lc: "leafCount ?n = leafCounts (the cs)" using 2(1) by (rule leafCount_node)
      have "\<forall>c \<in> set (postorders (the cs)). hf (ref c) = of_nat (leafCount c) * slot"
        using ok postorder_node_sub[OF 2(1), of r t] by blast
      with "1.IH"[OF 2(1)] 2(2) show ?thesis unfolding lc by fastforce
    qed
  qed
next
  case (2 hf lvl yo)
  then show ?case by simp
next
  case (3 hf c rest lvl yo)
  show ?case
  proof (intro impI ballI)
    fix ln
    assume ok: "\<forall>c \<in> set (postorders (c # rest)). hf (ref c) = of_nat (leafCount c) * slot"
      and ln: "ln \<in> set (laids hf (c # rest) lvl yo)"
    from ok have okc: "\<forall>c \<in> set (postorder c). hf (ref c) = of_nat (leafCount c) * slot"
      and okr: "\<forall>c \<in> set (postorders rest). hf (ref c) = of_nat (leafCount c) * slot"
      by auto
    have hc: "hf (ref c) = of_nat (leafCount c) * slot"
      using okc self_in_postorder[of c] by blast
    have p1: "(0::rat) \<le> of_nat (leafCounts rest) * slot" by (simp add: slot_val)
    have p2: "(0::rat) \<le> of_nat (leafCount c) * slot" by (simp add: slot_val)
    from ln consider "ln \<in> set (laid hf c lvl yo)"
      | "ln \<in> set (laids hf rest lvl (yo + hf (ref c)))" by auto
    then show "yo + slot / 2 \<le> y ln
        \<and> y ln \<le> yo + of_nat (leafCounts (c # rest)) * slot - slot / 2 \<and> lvl \<le> level ln"
    proof cases
      case 1
      with "3.IH"(1) okc have "yo + slot / 2 \<le> y ln"
        "y ln \<le> yo + of_nat (leafCount c) * slot - slot / 2" "lvl \<le> level ln" by blast+
      with p1 show ?thesis by (simp add: algebra_simps)
    next
      case 2
      with "3.IH"(2) okr have "yo + hf (ref c) + slot / 2 \<le> y ln"
        "y ln \<le> yo + hf (ref c) + of_nat (leafCounts rest) * slot - slot / 2" "lvl \<le> level ln"
        by blast+
      with p2 hc show ?thesis by (simp add: algebra_simps)
    qed
  qed
qed

lemma boxesIntersect_sym: "boxesIntersect a b = boxesIntersect b a"
  by (auto simp: boxesIntersect_def)

lemma boxesIntersect_same_place: "x a = x b \<Longrightarrow> y a = y b \<Longrightarrow> boxesIntersect a b"
  by (simp add: boxesIntersect_def NODE_WIDTH_def NODE_HEIGHT_def)

lemma laid_sep:
  "(\<forall>c \<in> set (postorder n). hf (ref c) = of_nat (leafCount c) * slot) \<longrightarrow>
     sorted_wrt (\<lambda>a b. \<not> boxesIntersect a b) (laid hf n lvl yo)"
  "(\<forall>c \<in> set (postorders cs). hf (ref c) = of_nat (leafCount c) * slot) \<longrightarrow>
     sorted_wrt (\<lambda>a b. \<not> boxesIntersect a b) (laids hf cs lvl yo)"
proof (induction hf n lvl yo and hf cs lvl yo rule: laid_laids.induct)
  case (1 hf r t cs lvl yo)
  let ?n = "MindMapNode r t cs"
  show ?case
  proof
    assume ok: "\<forall>c \<in> set (postorder ?n). hf (ref c) = of_nat (leafCount c) * slot"
    show "sorted_wrt (\<lambda>a b. \<not> boxesIntersect a b) (laid hf ?n lvl yo)"
    proof (cases "cs = None \<or> length (the cs) = 0")
      case True
      then show ?thesis by simp
    next
      case False
      let ?me = "\<lparr>node = ?n, x = of_nat lvl * HORIZONTAL_SEPARATION, y = ycenter hf ?n yo, level = lvl\<rparr>"
      have "\<forall>c \<in> set (postorders (the cs)). hf (ref c) = of_nat (leafCount c) * slot"
        using ok postorder_node_sub[OF False, of r t] by blast
      with "1.IH"[OF False] have s: "sorted_wrt (\<lambda>a b. \<not> boxesIntersect a b) (laids hf (the cs) (lvl + 1) yo)"
        by blast
      have "\<forall>a \<in> set (laids hf (the cs) (lvl + 1) yo). \<not> boxesIntersect a ?me"
      proof
        fix a assume "a \<in> set (laids hf (the cs) (lvl + 1) yo)"
        then have "of_nat (lvl + 1) * HORIZONTAL_SEPARATION \<le> x a"
          using laid_level_x(2) by blast
        then show "\<not> boxesIntersect a ?me"
          by (simp add: boxesIntersect_def HORIZONTAL_SEPARATION_def NODE_WIDTH_def algebra_simps)
      qed
      with s False show ?thesis by (simp add: sorted_wrt_append)
    qed
  qed
next
  case (2 hf lvl yo)
  then show ?case by simp
next
  case (3 hf c rest lvl yo)
  show ?case
  proof
    assume ok: "\<forall>c \<in> set (postorders (c # rest)). hf (ref c) = of_nat (leafCount c) * slot"
    from ok have okc: "\<forall>c \<in> set (postorder c). hf (ref c) = of_nat (leafCount c) * slot"
      and okr: "\<forall>c \<in> set (postorders rest). hf (ref c) = of_nat (leafCount c) * slot"
      by auto
    have hc: "hf (ref c) = of_nat (leafCount c) * slot"
      using okc self_in_postorder[of c] by blast
    from "3.IH" okc okr have s1: "sorted_wrt (\<lambda>a b. \<not> boxesIntersect a b) (laid hf c lvl yo)"
      and s2: "sorted_wrt (\<lambda>a b. \<not> boxesIntersect a b) (laids hf rest lvl (yo + hf (ref c)))"
      by blast+
    have "\<forall>a \<in> set (laid hf c lvl yo). \<forall>b \<in> set (laids hf rest lvl (yo + hf (ref c))).
            \<not> boxesIntersect a b"
    proof (intro ballI)
      fix a b assume a: "a \<in> set (laid hf c lvl yo)"
        and b: "b \<in> set (laids hf rest lvl (yo + hf (ref c)))"
      from a okc laid_bounds(1)[of c hf lvl yo]
      have "y a \<le> yo + of_nat (leafCount c) * slot - slot / 2" by blast
      moreover from b okr laid_bounds(2)[of rest hf lvl "yo + hf (ref c)"]
      have "yo + hf (ref c) + slot / 2 \<le> y b" by blast
      ultimately have "y a + slot \<le> y b" using hc by simp
      then show "\<not> boxesIntersect a b"
        by (simp add: boxesIntersect_def slot_val NODE_HEIGHT_def)
    qed
    with s1 s2 show "sorted_wrt (\<lambda>a b. \<not> boxesIntersect a b) (laids hf (c # rest) lvl yo)"
      by (simp add: sorted_wrt_append)
  qed
qed

lemma sorted_wrt_sym_neq:
  assumes "sorted_wrt R xs" and "\<And>a b. R a b \<Longrightarrow> R b a"
    and "a \<in> set xs" and "b \<in> set xs" and "a \<noteq> b"
  shows "R a b"
proof -
  from assms(3,4) obtain i j where ij: "i < length xs" "xs ! i = a" "j < length xs" "xs ! j = b"
    by (auto simp: in_set_conv_nth)
  with assms(5) have "i \<noteq> j" by auto
  then consider "i < j" | "j < i" by linarith
  then show ?thesis
  proof cases
    case 1
    with assms(1) ij show ?thesis by (auto simp: sorted_wrt_iff_nth_less)
  next
    case 2
    with assms(1) ij have "R b a" by (auto simp: sorted_wrt_iff_nth_less)
    then show ?thesis by (rule assms(2))
  qed
qed

lemma sum_take_Suc:
  "i < length xs \<Longrightarrow> sum_list (take (Suc i) xs) = sum_list (take i xs) + (xs ! i :: rat)"
  by (simp add: take_Suc_conv_app_nth)

lemma sum_take_mono:
  assumes "\<forall>v \<in> set xs. (0::rat) \<le> v" and "i \<le> j"
  shows "sum_list (take i xs) \<le> sum_list (take j xs)"
proof -
  have "take j xs = take i xs @ take (j - i) (drop i xs)"
    using assms(2) by (metis le_add_diff_inverse take_add)
  moreover have "0 \<le> sum_list (take (j - i) (drop i xs))"
    using assms(1) by (intro sum_list_nonneg) (meson in_set_dropD in_set_takeD)
  ultimately show ?thesis by simp
qed

subsection \<open>Parents and children\<close>

text \<open>
  Every pushed internal node lies midway between the pushed nodes of its first and of its
  last child.
\<close>

lemma laids_centers:
  "i < length cs \<Longrightarrow>
     \<exists>ln \<in> set (laids hf cs lvl yo). node ln = cs ! i \<and> y ln = ycenters hf cs yo ! i"
proof (induction cs arbitrary: i yo)
  case Nil
  then show ?case by simp
next
  case (Cons c rest)
  show ?case
  proof (cases i)
    case 0
    have "last (laid hf c lvl yo) \<in> set (laid hf c lvl yo)"
      using laid_last(1) by simp
    then show ?thesis using 0 laid_last(2,3)[of hf c lvl yo]
      by (intro bexI[of _ "last (laid hf c lvl yo)"]) auto
  next
    case (Suc k)
    with Cons.prems have "k < length rest" by simp
    from Cons.IH[OF this, of "yo + hf (ref c)"] Suc show ?thesis by auto
  qed
qed

lemma laid_centered:
  "\<forall>p \<in> set (laid hf n lvl yo). kids (node p) \<noteq> [] \<longrightarrow>
     (\<exists>c1 \<in> set (laid hf n lvl yo). \<exists>ck \<in> set (laid hf n lvl yo).
        node c1 = hd (kids (node p)) \<and> node ck = last (kids (node p))
        \<and> y p = (y c1 + y ck) / 2)"
  "\<forall>p \<in> set (laids hf cs lvl yo). kids (node p) \<noteq> [] \<longrightarrow>
     (\<exists>c1 \<in> set (laids hf cs lvl yo). \<exists>ck \<in> set (laids hf cs lvl yo).
        node c1 = hd (kids (node p)) \<and> node ck = last (kids (node p))
        \<and> y p = (y c1 + y ck) / 2)"
proof (induction hf n lvl yo and hf cs lvl yo rule: laid_laids.induct)
  case (1 hf r t cs lvl yo)
  let ?n = "MindMapNode r t cs"
  let ?me = "\<lparr>node = ?n, x = of_nat lvl * HORIZONTAL_SEPARATION, y = ycenter hf ?n yo, level = lvl\<rparr>"
  show ?case
  proof (cases "cs = None \<or> length (the cs) = 0")
    case True
    then have "kids ?n = []" by (cases cs) (auto simp: kids_node)
    with True show ?thesis by simp
  next
    case False
    then obtain l where l: "cs = Some l" "l \<noteq> []" by (cases cs) auto
    let ?sub = "laids hf l (lvl + 1) yo"
    let ?ys = "ycenters hf l yo"
    have k: "kids ?n = l" using l by (simp add: kids_node)
    have lay: "laid hf ?n lvl yo = ?sub @ [?me]" using l by simp
    have ih: "\<forall>p \<in> set ?sub. kids (node p) \<noteq> [] \<longrightarrow>
       (\<exists>c1 \<in> set ?sub. \<exists>ck \<in> set ?sub.
          node c1 = hd (kids (node p)) \<and> node ck = last (kids (node p))
          \<and> y p = (y c1 + y ck) / 2)"
      using "1.IH"[OF False] l by simp
    have len: "0 < length l" "length l - 1 < length l" using l by auto
    from laids_centers[OF len(1), of hf "lvl + 1" yo] obtain c1 where
      c1: "c1 \<in> set ?sub" "node c1 = l ! 0" "y c1 = ?ys ! 0" by blast
    from laids_centers[OF len(2), of hf "lvl + 1" yo] obtain ck where
      ck: "ck \<in> set ?sub" "node ck = l ! (length l - 1)" "y ck = ?ys ! (length l - 1)" by blast
    have hl: "hd l = l ! 0" "last l = l ! (length l - 1)"
      using l by (simp_all add: hd_conv_nth last_conv_nth)
    have yme: "y ?me = (y c1 + y ck) / 2"
      using l c1 ck by (simp add: Let_def length_ycenters)
    have me: "\<exists>c1 \<in> set ?sub. \<exists>ck \<in> set ?sub.
        node c1 = hd (kids (node ?me)) \<and> node ck = last (kids (node ?me))
        \<and> y ?me = (y c1 + y ck) / 2"
      using c1 ck hl k yme by (intro bexI[of _ c1] bexI[of _ ck]) simp_all
    show ?thesis
    proof (intro ballI impI)
      fix p assume p: "p \<in> set (laid hf ?n lvl yo)" and kp: "kids (node p) \<noteq> []"
      from p lay consider "p \<in> set ?sub" | "p = ?me" by auto
      then show "\<exists>c1 \<in> set (laid hf ?n lvl yo). \<exists>ck \<in> set (laid hf ?n lvl yo).
        node c1 = hd (kids (node p)) \<and> node ck = last (kids (node p))
        \<and> y p = (y c1 + y ck) / 2"
      proof cases
        case 1
        with ih kp obtain a b where "a \<in> set ?sub" "b \<in> set ?sub"
          "node a = hd (kids (node p))" "node b = last (kids (node p))" "y p = (y a + y b) / 2"
          by blast
        then show ?thesis unfolding lay by (intro bexI[of _ a] bexI[of _ b]) simp_all
      next
        case 2
        from me obtain a b where "a \<in> set ?sub" "b \<in> set ?sub"
          "node a = hd (kids (node ?me))" "node b = last (kids (node ?me))"
          "y ?me = (y a + y b) / 2"
          by blast
        then show ?thesis unfolding lay 2 by (intro bexI[of _ a] bexI[of _ b]) simp_all
      qed
    qed
  qed
next
  case (2 hf lvl yo)
  then show ?case by simp
next
  case (3 hf c rest lvl yo)
  let ?A = "laid hf c lvl yo"
  let ?B = "laids hf rest lvl (yo + hf (ref c))"
  show ?case
  proof (intro ballI impI)
    fix p assume p: "p \<in> set (laids hf (c # rest) lvl yo)" and kp: "kids (node p) \<noteq> []"
    then consider "p \<in> set ?A" | "p \<in> set ?B" by auto
    then obtain a b where "a \<in> set ?A \<union> set ?B" "b \<in> set ?A \<union> set ?B"
      "node a = hd (kids (node p))" "node b = last (kids (node p))" "y p = (y a + y b) / 2"
    proof cases
      case 1
      with "3.IH"(1) kp obtain a b where "a \<in> set ?A" "b \<in> set ?A"
        "node a = hd (kids (node p))" "node b = last (kids (node p))" "y p = (y a + y b) / 2"
        by blast
      then show ?thesis using that by blast
    next
      case 2
      with "3.IH"(2) kp obtain a b where "a \<in> set ?B" "b \<in> set ?B"
        "node a = hd (kids (node p))" "node b = last (kids (node p))" "y p = (y a + y b) / 2"
        by blast
      then show ?thesis using that by blast
    qed
    then show "\<exists>c1 \<in> set (laids hf (c # rest) lvl yo). \<exists>ck \<in> set (laids hf (c # rest) lvl yo).
        node c1 = hd (kids (node p)) \<and> node ck = last (kids (node p))
        \<and> y p = (y c1 + y ck) / 2"
      by (intro bexI[of _ a] bexI[of _ b]) simp_all
  qed
qed

subsection \<open>Links\<close>

text \<open>The nested loops push one link per child of every pushed node.\<close>

lemma inner_fold:
  "fold (\<lambda>childNode acc'. case g childNode of None \<Rightarrow> acc' | Some tgt \<Rightarrow> acc' @ [e tgt]) cs acc
     = acc @ concat (map (\<lambda>ch. case g ch of None \<Rightarrow> [] | Some tgt \<Rightarrow> [e tgt]) cs)"
  by (induction cs arbitrary: acc) (auto split: option.splits)

lemma outer_fold:
  "fold (\<lambda>a acc. acc @ f a) xs acc = acc @ concat (map f xs)"
  by (induction xs arbitrary: acc) auto

lemma createLinks_concat: "createLinks ns = concat (map (linksFrom ns) ns)"
proof -
  have "(\<lambda>src acc.
             case children (node src) of
               None \<Rightarrow> acc
             | Some cs \<Rightarrow>
                 fold (\<lambda>childNode acc'.
                         case findNode ns childNode of
                           None \<Rightarrow> acc'
                         | Some tgt \<Rightarrow>
                             acc' @ [\<lparr>source = \<lparr>pt_x = x src + NODE_WIDTH, pt_y = y src\<rparr>,
                                      target = \<lparr>pt_x = x tgt, pt_y = y tgt\<rparr>\<rparr>])
                      cs acc)
        = (\<lambda>src acc. acc @ linksFrom ns src)"
    unfolding linksFrom_def linkOf_def kids_def
    by (auto simp: fun_eq_iff inner_fold split: option.splits)
  then show ?thesis
    by (simp add: createLinks_def outer_fold)
qed


lemma findNode_unique:
  "distinct (map (\<lambda>q. ref (node q)) ns) \<Longrightarrow> p \<in> set ns \<Longrightarrow> findNode ns (node p) = Some p"
proof (induction ns)
  case Nil
  then show ?case by simp
next
  case (Cons a ns)
  show ?case
  proof (cases "p = a")
    case True
    then show ?thesis by (simp add: findNode_def)
  next
    case False
    with Cons.prems have "p \<in> set ns" by simp
    then have "ref (node p) \<in> set (map (\<lambda>q. ref (node q)) ns)" by auto
    with Cons.prems have "ref (node a) \<noteq> ref (node p)" by auto
    moreover have "findNode ns (node p) = Some p"
      using Cons \<open>p \<in> set ns\<close> by simp
    ultimately show ?thesis by (simp add: findNode_def)
  qed
qed



lemma linksFrom_found:
  assumes "\<forall>ch \<in> set (kids (node src)). \<exists>tgt. findNode ns ch = Some tgt"
  shows "linksFrom ns src = map (\<lambda>ch. linkOf src (the (findNode ns ch))) (kids (node src))"
proof -
  have "map (\<lambda>ch. case findNode ns ch of None \<Rightarrow> [] | Some tgt \<Rightarrow> [linkOf src tgt]) (kids (node src))
      = map (\<lambda>ch. [linkOf src (the (findNode ns ch))]) (kids (node src))"
    using assms by (intro map_cong) auto
  then have "linksFrom ns src
      = concat (map (\<lambda>ch. [linkOf src (the (findNode ns ch))]) (kids (node src)))"
    unfolding linksFrom_def by (rule arg_cong)
  then show ?thesis by simp
qed

lemma links_targets:
  assumes "\<forall>src \<in> set ns. \<forall>ch \<in> set (kids (node src)). \<exists>tgt. findNode ns ch = Some tgt"
  shows "map target (createLinks ns)
           = map (\<lambda>ch. \<lparr>pt_x = x (the (findNode ns ch)), pt_y = y (the (findNode ns ch))\<rparr>)
                 (concat (map kids (map node ns)))"
proof -
  have "map (linksFrom ns) ns
      = map (\<lambda>src. map (\<lambda>ch. linkOf src (the (findNode ns ch))) (kids (node src))) ns"
    using assms by (intro map_cong refl linksFrom_found) blast
  then have "createLinks ns
      = concat (map (\<lambda>src. map (\<lambda>ch. linkOf src (the (findNode ns ch))) (kids (node src))) ns)"
    unfolding createLinks_concat by (rule arg_cong)
  then show ?thesis
    by (simp add: map_concat comp_def linkOf_def)
qed

lemma distinct_count_list_one: "distinct xs \<Longrightarrow> a \<in> set xs \<Longrightarrow> count_list xs a = 1"
  by (induction xs) auto

section \<open>The claims\<close>

text \<open>
  Claim C1 (the node list is a pre-order traversal of the tree: the root first, then the
  subtree of each child in the given order) does not hold of the code. The comment of
  line 85 announces a pre-order traversal, but the push of line 104 stands after the loop
  over the children: on a root with the single child A the layout returns the list
  \<open>[A, Root]\<close>, where the pre-order is \<open>[Root, A]\<close>. The renderer takes its reveal delay
  from the index in this list (lines 245--251), so the root is revealed last.
\<close>

theorem C1_child_pushed_before_root:
  "map (\<lambda>ln. ref (node ln)) (nodes (projr (computeLayout chain2))) = [1, 0]
   \<and> map ref (preorder chain2) = [0, 1]
   \<and> map node (nodes (projr (computeLayout chain2))) \<noteq> preorder chain2"
  by (simp add: computeLayout_def chain2_def NODE_HEIGHT_def VERTICAL_SEPARATION_def)



text \<open>
  Claim C3: in a tree without shared nodes, the \<open>y\<close> of every internal node P with children
  \<open>c1 .. ck\<close> (\<open>k \<ge> 1\<close>) is \<open>(y of c1 + y of ck) / 2\<close>, the midpoint of the centres of the first
  and the last child only; with a single child it is the \<open>y\<close> of that child. The positioned
  node of a tree node is the one \<open>findNode\<close> returns for it.
\<close>

theorem C3_parent_centered:
  assumes "unshared T" and "P \<in> set (postorder T)" and "children P = Some cs" and "cs \<noteq> []"
  shows "\<exists>L p c1 ck. computeLayout T = Inr L
      \<and> findNode (nodes L) P = Some p \<and> node p = P
      \<and> findNode (nodes L) (hd cs) = Some c1 \<and> node c1 = hd cs
      \<and> findNode (nodes L) (last cs) = Some ck \<and> node ck = last cs
      \<and> y p = (y c1 + y ck) / 2
      \<and> (length cs = 1 \<longrightarrow> y p = y c1)"
proof -
  let ?ns = "laid (pass1 T) T 0 0"
  have n: "map node ?ns = postorder T" by (rule laid_nodes)
  have d: "distinct (map (\<lambda>ln. ref (node ln)) ?ns)"
    using arg_cong[OF n, of "map ref"] assms(1) by (simp add: unshared_def comp_def)
  have k: "kids P = cs" using assms(3) by (simp add: kids_def)
  from assms(2) n obtain p where p: "p \<in> set ?ns" "node p = P"
    by (metis (no_types, lifting) image_iff set_map)
  with laid_centered(1)[of "pass1 T" T 0 0] k assms(4)
  obtain c1 ck where c: "c1 \<in> set ?ns" "ck \<in> set ?ns" "node c1 = hd cs" "node ck = last cs"
    "y p = (y c1 + y ck) / 2" by fastforce
  have f: "findNode ?ns P = Some p" "findNode ?ns (hd cs) = Some c1" "findNode ?ns (last cs) = Some ck"
    using findNode_unique[OF d] p c by metis+
  have one: "length cs = 1 \<longrightarrow> y p = y c1"
  proof
    assume "length cs = 1"
    then have "hd cs = last cs" by (cases cs) auto
    with f have "c1 = ck" by simp
    with c show "y p = y c1" by simp
  qed
  have "computeLayout T = Inr \<lparr>nodes = ?ns, links = createLinks ?ns,
          width = Max (set (map x ?ns)) + NODE_WIDTH + 40,
          height = of_nat (leafCount T) * slot + 40\<rparr>" by (rule computeLayout_eq)
  with f p c one show ?thesis by fastforce
qed

text \<open>
  The root of the unbalanced sample tree lies midway between its two children, and the
  root of the chain has the \<open>y\<close> of its only child.
\<close>

theorem C3_parent_centered_witness:
  "unshared unbalanced \<and> unshared chain2
   \<and> (\<exists>L p c1 ck. computeLayout unbalanced = Inr L
        \<and> findNode (nodes L) unbalanced = Some p
        \<and> findNode (nodes L) (MindMapNode 1 ''child1'' None) = Some c1
        \<and> findNode (nodes L)
             (MindMapNode 2 ''child2''
                (Some [MindMapNode 3 ''g1'' (Some []), MindMapNode 4 ''g2'' None,
                       MindMapNode 5 ''g3'' None])) = Some ck
        \<and> y p = (y c1 + y ck) / 2)
   \<and> (\<exists>L p c. computeLayout chain2 = Inr L
        \<and> findNode (nodes L) chain2 = Some p
        \<and> findNode (nodes L) (MindMapNode 1 ''A'' None) = Some c
        \<and> y p = y c)"
proof -
  let ?c1 = "MindMapNode 1 ''child1'' None"
  let ?c2 = "MindMapNode 2 ''child2''
                (Some [MindMapNode 3 ''g1'' (Some []), MindMapNode 4 ''g2'' None,
                       MindMapNode 5 ''g3'' None])"
  have a: "unbalanced \<in> set (postorder unbalanced)" by (rule self_in_postorder)
  have b: "children unbalanced = Some [?c1, ?c2]" by (simp add: unbalanced_def)
  have a': "chain2 \<in> set (postorder chain2)" by (rule self_in_postorder)
  have b': "children chain2 = Some [MindMapNode 1 ''A'' None]" by (simp add: chain2_def)
  from C3_parent_centered[OF unshared_unbalanced a b] C3_parent_centered[OF unshared_chain2 a' b']
    unshared_unbalanced unshared_chain2
  show ?thesis by (simp; blast)
qed

text \<open>
  Claim C4: let P be a node of a tree T without shared nodes and \<open>cs\<close> its children. In the
  layout of T the call for P, with some offset \<open>b\<close>, runs the loop of lines 96--100 from
  \<open>b\<close>, on a map that holds the heights of pass 1, and the nodes the loop pushes are part of
  the node list. For every child of index \<open>k\<close>: after the first \<open>k\<close> iterations the local
  \<^verbatim>\<open>childYOffset\<close> is \<open>bandStart b cs k\<close>; the call for the child receives it as its
  \<^verbatim>\<open>yOffset\<close>; the \<^verbatim>\<open>subtreeHeight\<close> the loop then reads from the map is the height pass 1
  returned for the child, and the loop goes on from their sum, which is
  \<open>bandStart b cs (Suc k)\<close>, the start of the next band; the call pushes exactly the nodes
  of the child's subtree, all of them in the node list of the layout and with their \<open>y\<close>
  at least half a slot inside the band \<open>[bandStart b cs k, bandStart b cs k + height)\<close>.
  The bands of two children \<open>i < j\<close> are disjoint. For the root, \<open>b\<close> is 0.
\<close>

theorem C4_sibling_bands:
  assumes "unshared T" and "P \<in> set (postorder T)" and "children P = Some cs"
    and "\<forall>r. map_option subtreeHeight (nodeMap r)
              = map_option subtreeHeight (snd (calculateInitialY T Map.empty) r)"
    and "k < length cs" and "i < j" and "j < length cs"
  shows "\<exists>L lvl b ns0.
      computeLayout T = Inr L
    \<and> (P = T \<longrightarrow> lvl = 0 \<and> b = 0 \<and> ns0 = [])
    \<and> (\<exists>yP p nmP yEnd centers ns1 nm1 rest.
          calculateFinalLayout P lvl b (ns0, nodeMap) = Inr (yP, ns1 @ [p], nmP)
          \<and> calculateFinalLayout_forEach cs (lvl + 1) (b, [], ns0, nodeMap)
              = Inr (yEnd, centers, ns1, nm1)
          \<and> node p = P \<and> nodes L = ns1 @ [p] @ rest)
    \<and> bandStart b cs (Suc k)
        = bandStart b cs k
            + fst (calculateInitialY (cs ! k) Map.empty)
    \<and> (\<exists>ce nsk nmk cy pushed nm' info.
          calculateFinalLayout_forEach (take k cs) (lvl + 1) (b, [], ns0, nodeMap)
            = Inr (bandStart b cs k,
                   ce, nsk, nmk)
          \<and> calculateFinalLayout (cs ! k) (lvl + 1)
                (bandStart b cs k)
                (nsk, nmk)
              = Inr (cy, nsk @ pushed, nm')
          \<and> nm' (ref (cs ! k)) = Some info
          \<and> subtreeHeight info = fst (calculateInitialY (cs ! k) Map.empty)
          \<and> calculateFinalLayout_forEach cs (lvl + 1) (b, [], ns0, nodeMap)
              = calculateFinalLayout_forEach (drop (Suc k) cs) (lvl + 1)
                  (bandStart b cs k
                     + fst (calculateInitialY (cs ! k) Map.empty),
                   ce @ [cy], nsk @ pushed, nm')
          \<and> map node pushed = postorder (cs ! k)
          \<and> (\<forall>q \<in> set pushed. q \<in> set (nodes L)
                \<and> bandStart b cs k
                     + (NODE_HEIGHT + VERTICAL_SEPARATION) / 2 \<le> y q
                \<and> y q \<le> bandStart b cs k
                           + fst (calculateInitialY (cs ! k) Map.empty)
                           - (NODE_HEIGHT + VERTICAL_SEPARATION) / 2))
    \<and> {bandStart b cs i
         ..< bandStart b cs i
               + fst (calculateInitialY (cs ! i) Map.empty)}
        \<inter> {bandStart b cs j
            ..< bandStart b cs j
                  + fst (calculateInitialY (cs ! j) Map.empty)} = {}"
proof -
  let ?hf = "pass1 T"
  let ?h = "\<lambda>c. fst (calculateInitialY c Map.empty)"
  let ?ns = "laid ?hf T 0 0"
  have hd: "htab nodeMap = ?hf" "dom nodeMap = dom (snd (calculateInitialY T Map.empty))"
    using sameHeights_htab[OF assms(4)] by (simp_all add: pass1_def)
  have domT: "ref ` set (postorder T) \<subseteq> dom nodeMap"
    using pass1_dom[of T Map.empty] hd(2) by blast
  have okT: "\<forall>c \<in> set (postorder T). ?hf (ref c) = of_nat (leafCount c) * slot"
    by (rule pass1_ok[OF assms(1)])
  have ne: "cs \<noteq> []" using assms(7) by auto
  obtain r t where P: "P = MindMapNode r t (Some cs)"
    using assms(3) by (cases P) auto
  have csP: "set (postorders cs) \<subseteq> set (postorder P)" using P by auto
  have PT: "set (postorder P) \<subseteq> set (postorder T)"
    using assms(2) postorder_closed(1) by blast
  have csT: "set (postorders cs) \<subseteq> set (postorder T)" using csP PT by blast
  have inT: "c \<in> set (postorder T)" if "c \<in> set cs" for c
    using that children_in_postorders[of cs] csT by blast
  have hfh: "?hf (ref c) = ?h c" if "c \<in> set cs" for c
    using okT inT[OF that] by (simp add: calculateInitialY_value)
  have sumh: "sum_list (map (\<lambda>c. ?hf (ref c)) (take m cs)) = sum_list (map ?h (take m cs))" for m
  proof -
    have "map (\<lambda>c. ?hf (ref c)) (take m cs) = map ?h (take m cs)"
      by (intro map_cong refl hfh) (meson in_set_takeD)
    then show ?thesis by (rule arg_cong)
  qed
  \<comment> \<open>where the loop for the children of \<open>P\<close> sits in the layout of \<open>T\<close>\<close>
  from laid_subtree(1)[of P T ?hf 0 0] assms(2) obtain lvP b pre post where
    dec: "?ns = pre @ laid ?hf P lvP b @ post"
    and top: "P = T \<longrightarrow> lvP = 0 \<and> b = 0 \<and> pre = []" by blast
  let ?lvl = "lvP + 1"
  let ?me = "\<lparr>node = P, x = of_nat lvP * HORIZONTAL_SEPARATION, y = ycenter ?hf P b, level = lvP\<rparr>"
  have layP: "laid ?hf P lvP b = laids ?hf cs ?lvl b @ [?me]"
    using P ne by simp
  let ?off = "\<lambda>m. b + sum_list (map ?h (take m cs))"
  let ?st = "(b, [], pre, nodeMap)"
  obtain L where cl: "computeLayout T = Inr L" and nl: "nodes L = ?ns"
    by (simp add: computeLayout_eq)
  \<comment> \<open>the whole loop\<close>
  have domcs: "ref ` set (postorders cs) \<subseteq> dom nodeMap" using csT domT by blast
  from loop_result[OF domcs, of ?lvl b "[]" pre] hd(1) obtain nm1 where
    whole: "calculateFinalLayout_forEach cs ?lvl ?st
      = Inr (b + sum_list (map (\<lambda>c. ?hf (ref c)) cs), ycenters ?hf cs b,
             pre @ laids ?hf cs ?lvl b, nm1)" by auto
  have nodesL: "?ns = (pre @ laids ?hf cs ?lvl b) @ ([?me] @ post)"
    using dec layP by simp
  \<comment> \<open>the first \<open>k\<close> children\<close>
  have subk: "set (postorders (take k cs)) \<subseteq> set (postorders cs)"
  proof -
    have "set (postorders (take m xs)) \<subseteq> set (postorders xs)" for m xs
    proof (induction xs arbitrary: m)
      case Nil
      then show ?case by simp
    next
      case (Cons a xs)
      then show ?case by (cases m) auto
    qed
    then show ?thesis .
  qed
  then have domk: "ref ` set (postorders (take k cs)) \<subseteq> dom nodeMap" using domcs by blast
  from loop_result[OF domk, of ?lvl b "[]" pre] hd(1) sumh[of k] obtain nmk where
    firstk: "calculateFinalLayout_forEach (take k cs) ?lvl ?st
      = Inr (?off k, ycenters ?hf (take k cs) b, pre @ laids ?hf (take k cs) ?lvl b, nmk)"
    and hk: "htab nmk = ?hf" and dk: "dom nmk = dom nodeMap" by auto
  let ?ce = "ycenters ?hf (take k cs) b"
  let ?nsk = "pre @ laids ?hf (take k cs) ?lvl b"
  \<comment> \<open>the call for child \<open>k\<close>\<close>
  have ck: "cs ! k \<in> set cs" using assms(5) by simp
  have ckT: "set (postorder (cs ! k)) \<subseteq> set (postorder T)"
    using inT[OF ck] postorder_closed(1) by blast
  then have domck: "ref ` set (postorder (cs ! k)) \<subseteq> dom nmk" using domT dk by blast
  from call_result[OF domck, of ?lvl "?off k" ?nsk] hk obtain nm' where
    call: "calculateFinalLayout (cs ! k) ?lvl (?off k) (?nsk, nmk)
      = Inr (ycenter ?hf (cs ! k) (?off k), ?nsk @ laid ?hf (cs ! k) ?lvl (?off k), nm')"
    and h': "htab nm' = ?hf" and d': "dom nm' = dom nodeMap" using dk by auto
  let ?cy = "ycenter ?hf (cs ! k) (?off k)"
  let ?pushed = "laid ?hf (cs ! k) ?lvl (?off k)"
  have "ref (cs ! k) \<in> dom nm'"
    using domT d' inT[OF ck] by blast
  then obtain info where info: "nm' (ref (cs ! k)) = Some info" by blast
  have hinfo: "subtreeHeight info = ?h (cs ! k)"
    using info h' hfh[OF ck] by (auto simp: htab_def fun_eq_iff split: option.splits dest: spec[of _ "ref (cs ! k)"])
  have cont: "calculateFinalLayout_forEach cs ?lvl ?st
      = calculateFinalLayout_forEach (drop (Suc k) cs) ?lvl
          (?off k + ?h (cs ! k), ?ce @ [?cy], ?nsk @ ?pushed, nm')"
    using forEach_reaches_child[OF assms(5), of ?lvl b "[]" pre nodeMap] firstk call info hinfo
    by simp
  \<comment> \<open>where the nodes of child \<open>k\<close> land\<close>
  have np: "map node ?pushed = postorder (cs ! k)" by (rule laid_nodes)
  have okk: "\<forall>c \<in> set (postorder (cs ! k)). ?hf (ref c) = of_nat (leafCount c) * slot"
    using okT ckT by blast
  have bounds: "\<forall>q \<in> set ?pushed. ?off k + slot / 2 \<le> y q
      \<and> y q \<le> ?off k + of_nat (leafCount (cs ! k)) * slot - slot / 2"
    using laid_bounds(1)[of "cs ! k" ?hf ?lvl "?off k"] okk by blast
  have domr: "ref ` set (postorders (drop (Suc k) cs)) \<subseteq> dom nm'"
  proof -
    have "set (postorders (drop m xs)) \<subseteq> set (postorders xs)" for m xs
    proof (induction xs arbitrary: m)
      case Nil
      then show ?case by simp
    next
      case (Cons a xs)
      then show ?case by (cases m) auto
    qed
    then show ?thesis using domcs d' by blast
  qed
  from loop_result[OF domr, of ?lvl "?off k + ?h (cs ! k)" "?ce @ [?cy]" "?nsk @ ?pushed"]
  obtain yD ceD more nm2 where dropres:
    "calculateFinalLayout_forEach (drop (Suc k) cs) ?lvl
          (?off k + ?h (cs ! k), ?ce @ [?cy], ?nsk @ ?pushed, nm')
      = Inr (yD, ceD, (?nsk @ ?pushed) @ more, nm2)" by blast
  have "calculateFinalLayout_forEach cs ?lvl ?st = Inr (yD, ceD, (?nsk @ ?pushed) @ more, nm2)"
    using cont dropres by (rule trans)
  from trans[OF whole[symmetric] this]
  have "pre @ laids ?hf cs ?lvl b = (?nsk @ ?pushed) @ more"
    by (simp only: sum.inject prod.inject)
  moreover have "set ?pushed \<subseteq> set ((?nsk @ ?pushed) @ more)"
    by (simp only: set_append) blast
  ultimately have "set ?pushed \<subseteq> set (pre @ laids ?hf cs ?lvl b)" by (simp only:)
  then have inL: "set ?pushed \<subseteq> set ?ns"
    unfolding nodesL by (simp only: set_append) blast
  have land: "\<forall>q \<in> set ?pushed. q \<in> set ?ns
       \<and> ?off k + (NODE_HEIGHT + VERTICAL_SEPARATION) / 2 \<le> y q
       \<and> y q \<le> ?off k + ?h (cs ! k) - (NODE_HEIGHT + VERTICAL_SEPARATION) / 2"
    using bounds inL by (auto simp: calculateInitialY_value slot_def)
  \<comment> \<open>the bands of two children\<close>
  have nonneg: "\<forall>v \<in> set (map ?h cs). 0 \<le> v"
    by (auto simp: calculateInitialY_value slot_val)
  have i: "i < length cs" using assms(6,7) by simp
  have "sum_list (take (Suc i) (map ?h cs)) = sum_list (take i (map ?h cs)) + ?h (cs ! i)"
    using sum_take_Suc[of i "map ?h cs"] i by simp
  moreover have "sum_list (take (Suc i) (map ?h cs)) \<le> sum_list (take j (map ?h cs))"
    using sum_take_mono[OF nonneg, of "Suc i" j] assms(6) by simp
  ultimately have "?off i + ?h (cs ! i) \<le> ?off j" by (simp add: take_map)
  then have disj: "{?off i ..< ?off i + ?h (cs ! i)} \<inter> {?off j ..< ?off j + ?h (cs ! j)} = {}"
    by auto
  have domP: "ref ` set (postorder P) \<subseteq> dom nodeMap" using PT domT by blast
  from call_result[OF domP, of lvP b pre] hd(1) layP obtain nmP where
    callP: "calculateFinalLayout P lvP b (pre, nodeMap)
      = Inr (ycenter ?hf P b, (pre @ laids ?hf cs ?lvl b) @ [?me], nmP)" by auto
  have A: "\<exists>yP p nmP yEnd centers ns1 nm1 rest.
          calculateFinalLayout P lvP b (pre, nodeMap) = Inr (yP, ns1 @ [p], nmP)
          \<and> calculateFinalLayout_forEach cs ?lvl ?st = Inr (yEnd, centers, ns1, nm1)
          \<and> node p = P \<and> nodes L = ns1 @ [p] @ rest"
    unfolding nl
    by (intro exI[of _ "ycenter ?hf P b"] exI[of _ ?me] exI[of _ nmP]
          exI[of _ "b + sum_list (map (\<lambda>c. ?hf (ref c)) cs)"] exI[of _ "ycenters ?hf cs b"]
          exI[of _ "pre @ laids ?hf cs ?lvl b"] exI[of _ nm1] exI[of _ post] conjI
          callP whole nodesL) simp
  have k: "k < length cs" by (rule assms(5))
  have S: "?off (Suc k) = ?off k + ?h (cs ! k)"
    using sum_take_Suc[of k "map ?h cs"] k by (simp add: take_map)
  have B: "\<exists>ce nsk nmk cy pushed nm' info.
          calculateFinalLayout_forEach (take k cs) ?lvl ?st = Inr (?off k, ce, nsk, nmk)
          \<and> calculateFinalLayout (cs ! k) ?lvl (?off k) (nsk, nmk) = Inr (cy, nsk @ pushed, nm')
          \<and> nm' (ref (cs ! k)) = Some info
          \<and> subtreeHeight info = ?h (cs ! k)
          \<and> calculateFinalLayout_forEach cs ?lvl ?st
              = calculateFinalLayout_forEach (drop (Suc k) cs) ?lvl
                  (?off k + ?h (cs ! k), ce @ [cy], nsk @ pushed, nm')
          \<and> map node pushed = postorder (cs ! k)
          \<and> (\<forall>q \<in> set pushed. q \<in> set (nodes L)
                \<and> ?off k + (NODE_HEIGHT + VERTICAL_SEPARATION) / 2 \<le> y q
                \<and> y q \<le> ?off k + ?h (cs ! k) - (NODE_HEIGHT + VERTICAL_SEPARATION) / 2)"
    unfolding nl
    by (intro exI[of _ ?ce] exI[of _ ?nsk] exI[of _ nmk] exI[of _ ?cy] exI[of _ ?pushed]
          exI[of _ nm'] exI[of _ info] conjI firstk call info hinfo cont np land)
  show ?thesis
    unfolding bandStart_def
  proof (rule exI[of _ L], rule exI[of _ lvP], rule exI[of _ b], rule exI[of _ pre], intro conjI)
  qed (fact cl top A S B disj)+
qed

text \<open>
  The two children of the root of the unbalanced sample tree: the bands are \<open>[0, 100)\<close>
  and \<open>[100, 400)\<close>, and the second child is called with offset 100.
\<close>

theorem C4_sibling_bands_witness:
  "unshared unbalanced
   \<and> unbalanced \<in> set (postorder unbalanced)
   \<and> children unbalanced = Some (kids unbalanced)
   \<and> (1::nat) < length (kids unbalanced)
   \<and> bandStart 0 (kids unbalanced) 0 = 0
   \<and> bandStart 0 (kids unbalanced) 1 = 100
   \<and> fst (calculateInitialY (kids unbalanced ! 0) Map.empty) = 100
   \<and> fst (calculateInitialY (kids unbalanced ! 1) Map.empty) = 300
   \<and> {0 ..< 100} \<inter> {100 ..< 400} = ({} :: rat set)
   \<and> (
   \<exists>L lvl b ns0.
         computeLayout unbalanced = Inr L
       \<and> (unbalanced = unbalanced \<longrightarrow> lvl = 0 \<and> b = 0 \<and> ns0 = [])
       \<and> (\<exists>yP p nmP yEnd centers ns1 nm1 rest.
             calculateFinalLayout unbalanced lvl b (ns0, (snd (calculateInitialY unbalanced Map.empty))) = Inr (yP, ns1 @ [p], nmP)
             \<and> calculateFinalLayout_forEach (kids unbalanced) (lvl + 1) (b, [], ns0, (snd (calculateInitialY unbalanced Map.empty)))
                 = Inr (yEnd, centers, ns1, nm1)
             \<and> node p = unbalanced \<and> nodes L = ns1 @ [p] @ rest)
       \<and> bandStart b (kids unbalanced) (Suc 1)
           = bandStart b (kids unbalanced) 1
               + fst (calculateInitialY ((kids unbalanced) ! 1) Map.empty)
       \<and> (\<exists>ce nsk nmk cy pushed nm' info.
             calculateFinalLayout_forEach (take 1 (kids unbalanced)) (lvl + 1) (b, [], ns0, (snd (calculateInitialY unbalanced Map.empty)))
               = Inr (bandStart b (kids unbalanced) 1,
                      ce, nsk, nmk)
             \<and> calculateFinalLayout ((kids unbalanced) ! 1) (lvl + 1)
                   (bandStart b (kids unbalanced) 1)
                   (nsk, nmk)
                 = Inr (cy, nsk @ pushed, nm')
             \<and> nm' (ref ((kids unbalanced) ! 1)) = Some info
             \<and> subtreeHeight info = fst (calculateInitialY ((kids unbalanced) ! 1) Map.empty)
             \<and> calculateFinalLayout_forEach (kids unbalanced) (lvl + 1) (b, [], ns0, (snd (calculateInitialY unbalanced Map.empty)))
                 = calculateFinalLayout_forEach (drop (Suc 1) (kids unbalanced)) (lvl + 1)
                     (bandStart b (kids unbalanced) 1
                        + fst (calculateInitialY ((kids unbalanced) ! 1) Map.empty),
                      ce @ [cy], nsk @ pushed, nm')
             \<and> map node pushed = postorder ((kids unbalanced) ! 1)
             \<and> (\<forall>q \<in> set pushed. q \<in> set (nodes L)
                   \<and> bandStart b (kids unbalanced) 1
                        + (NODE_HEIGHT + VERTICAL_SEPARATION) / 2 \<le> y q
                   \<and> y q \<le> bandStart b (kids unbalanced) 1
                              + fst (calculateInitialY ((kids unbalanced) ! 1) Map.empty)
                              - (NODE_HEIGHT + VERTICAL_SEPARATION) / 2))
       \<and> {bandStart b (kids unbalanced) 0
            ..< bandStart b (kids unbalanced) 0
                  + fst (calculateInitialY ((kids unbalanced) ! 0) Map.empty)}
           \<inter> {bandStart b (kids unbalanced) 1
               ..< bandStart b (kids unbalanced) 1
                     + fst (calculateInitialY ((kids unbalanced) ! 1) Map.empty)} = {})"
proof -
  let ?nm = "snd (calculateInitialY unbalanced Map.empty)"
  have a: "unbalanced \<in> set (postorder unbalanced)" by (rule self_in_postorder)
  have b: "children unbalanced = Some (kids unbalanced)" by (simp add: unbalanced_def kids_def)
  have c: "\<forall>r. map_option subtreeHeight (?nm r) = map_option subtreeHeight (?nm r)" by simp
  have d: "(1::nat) < length (kids unbalanced)" by (simp add: unbalanced_def kids_def)
  have e: "(0::nat) < 1" by simp
  have h0: "fst (calculateInitialY (kids unbalanced ! 0) Map.empty) = 100"
    by (simp add: unbalanced_def kids_def NODE_HEIGHT_def VERTICAL_SEPARATION_def)
  have h1: "fst (calculateInitialY (kids unbalanced ! 1) Map.empty) = 300"
    by (simp add: unbalanced_def kids_def NODE_HEIGHT_def VERTICAL_SEPARATION_def)
  have s0: "bandStart 0 (kids unbalanced) 0 = 0" by (simp add: bandStart_def)
  have s1: "bandStart 0 (kids unbalanced) 1 = 100"
    by (simp add: bandStart_def unbalanced_def kids_def NODE_HEIGHT_def VERTICAL_SEPARATION_def)
  have emp: "{0 ..< 100} \<inter> {100 ..< 400} = ({} :: rat set)" by auto
  note w = C4_sibling_bands[OF unshared_unbalanced a b c d e d]
  show ?thesis
    by (intro conjI unshared_unbalanced a b d s0 s1 h0 h1 emp w)
qed

text \<open>
  Claim C5: in a tree without shared nodes, the boxes of any two different positioned
  nodes, \<open>NODE_WIDTH\<close> by \<open>NODE_HEIGHT\<close> with upper left corner \<open>(x, y - NODE_HEIGHT / 2)\<close>, have
  no point in common, not even on their borders.
\<close>

theorem C5_no_overlap:
  assumes "unshared T"
  shows "\<exists>L. computeLayout T = Inr L
      \<and> (\<forall>i < length (nodes L). \<forall>j < length (nodes L).
            i \<noteq> j \<longrightarrow> \<not> boxesIntersect (nodes L ! i) (nodes L ! j))"
proof -
  let ?ns = "laid (pass1 T) T 0 0"
  have s: "sorted_wrt (\<lambda>a b. \<not> boxesIntersect a b) ?ns"
    using laid_sep(1)[of T "pass1 T" 0 0] pass1_ok[OF assms] by blast
  have "\<forall>i < length ?ns. \<forall>j < length ?ns. i \<noteq> j \<longrightarrow> \<not> boxesIntersect (?ns ! i) (?ns ! j)"
  proof (intro allI impI)
    fix i j assume ij: "i < length ?ns" "j < length ?ns" "i \<noteq> j"
    show "\<not> boxesIntersect (?ns ! i) (?ns ! j)"
    proof (cases "i < j")
      case True
      with s ij show ?thesis by (simp add: sorted_wrt_iff_nth_less)
    next
      case False
      with ij have "j < i" by simp
      with s ij have "\<not> boxesIntersect (?ns ! j) (?ns ! i)" by (simp add: sorted_wrt_iff_nth_less)
      then show ?thesis by (simp add: boxesIntersect_sym)
    qed
  qed
  then show ?thesis by (simp add: computeLayout_eq)
qed

text \<open>Two pairs of positioned nodes of the unbalanced sample tree.\<close>

theorem C5_no_overlap_witness:
  "unshared unbalanced
   \<and> (\<exists>L. computeLayout unbalanced = Inr L \<and> length (nodes L) = 6
        \<and> \<not> boxesIntersect (nodes L ! 1) (nodes L ! 4)
        \<and> \<not> boxesIntersect (nodes L ! 5) (nodes L ! 0))"
proof -
  from C5_no_overlap[OF unshared_unbalanced] obtain L where
    cl: "computeLayout unbalanced = Inr L"
    and s: "\<forall>i < length (nodes L). \<forall>j < length (nodes L).
            i \<noteq> j \<longrightarrow> \<not> boxesIntersect (nodes L ! i) (nodes L ! j)" by blast
  have "map node (nodes L) = postorder unbalanced"
    using cl by (auto simp: computeLayout_eq laid_nodes)
  from arg_cong[OF this, of length] have len: "length (nodes L) = 6"
    by (simp add: unbalanced_def)
  with s have "\<not> boxesIntersect (nodes L ! 1) (nodes L ! 4)"
    "\<not> boxesIntersect (nodes L ! 5) (nodes L ! 0)" by simp_all
  with cl len unshared_unbalanced show ?thesis by blast
qed

text \<open>
  Claim C6: pass 1 returns \<open>NODE_HEIGHT + VERTICAL_SEPARATION\<close> for a leaf and the sum of
  the heights of the children for an internal node, with no slot of its own for the parent;
  a node without \<^verbatim>\<open>children\<close> field and a node with an empty list take the same branch of
  the same test (line 72), and pass 1 returns the same height and the same map for both.
  The height returned for a node does not depend on the map the call starts from.
\<close>

theorem C6_subtreeHeight:
  "fst (calculateInitialY (MindMapNode r t None) m) = NODE_HEIGHT + VERTICAL_SEPARATION
   \<and> calculateInitialY (MindMapNode r t (Some [])) m = calculateInitialY (MindMapNode r t None) m
   \<and> (cs \<noteq> [] \<longrightarrow> fst (calculateInitialY (MindMapNode r t (Some cs)) m)
                     = sum_list (map (\<lambda>c. fst (calculateInitialY c m')) cs))"
proof (intro conjI impI)
  show "fst (calculateInitialY (MindMapNode r t None) m) = NODE_HEIGHT + VERTICAL_SEPARATION"
    by simp
  show "calculateInitialY (MindMapNode r t (Some [])) m = calculateInitialY (MindMapNode r t None) m"
    by simp
  assume ne: "cs \<noteq> []"
  have s: "of_nat (leafCounts l) * slot = sum_list (map (\<lambda>c. of_nat (leafCount c) * slot) l)" for l
    by (induction l) (auto simp: algebra_simps)
  have "fst (calculateInitialY (MindMapNode r t (Some cs)) m)
        = of_nat (leafCount (MindMapNode r t (Some cs))) * slot"
    by (rule calculateInitialY_value)
  also have "\<dots> = of_nat (leafCounts cs) * slot"
    using ne by simp
  also have "\<dots> = sum_list (map (\<lambda>c. of_nat (leafCount c) * slot) cs)"
    by (rule s)
  also have "\<dots> = sum_list (map (\<lambda>c. fst (calculateInitialY c m')) cs)"
    by (simp add: calculateInitialY_value)
  finally show "fst (calculateInitialY (MindMapNode r t (Some cs)) m)
                     = sum_list (map (\<lambda>c. fst (calculateInitialY c m')) cs)" .
qed

text \<open>A leaf, and the root of the unbalanced sample tree with its two children.\<close>

theorem C6_subtreeHeight_witness:
  "fst (calculateInitialY (MindMapNode 7 ''leaf'' None) Map.empty) = 100
   \<and> calculateInitialY (MindMapNode 7 ''leaf'' (Some [])) Map.empty
       = calculateInitialY (MindMapNode 7 ''leaf'' None) Map.empty
   \<and> fst (calculateInitialY unbalanced Map.empty)
       = fst (calculateInitialY (MindMapNode 1 ''child1'' None) Map.empty)
         + fst (calculateInitialY
                  (MindMapNode 2 ''child2''
                     (Some [MindMapNode 3 ''g1'' (Some []), MindMapNode 4 ''g2'' None,
                            MindMapNode 5 ''g3'' None])) Map.empty)"
  using C6_subtreeHeight[where r = 7 and t = "''leaf''" and m = Map.empty]
    C6_subtreeHeight[where r = 0 and t = "''Root''" and m = Map.empty and m' = Map.empty
      and cs = "[MindMapNode 1 ''child1'' None,
                 MindMapNode 2 ''child2''
                   (Some [MindMapNode 3 ''g1'' (Some []), MindMapNode 4 ''g2'' None,
                          MindMapNode 5 ''g3'' None])]"]
  by (simp add: unbalanced_def NODE_HEIGHT_def VERTICAL_SEPARATION_def)


text \<open>
  Claim C8: every positioned node carries its depth in the tree as level (the root has
  level 0) and has \<open>x = level * HORIZONTAL_SEPARATION\<close>, so the root has \<open>x = 0\<close> and any two
  nodes of the same level have the same \<open>x\<close>.
\<close>

theorem C8_columns:
  "\<exists>L. computeLayout T = Inr L
     \<and> map (\<lambda>ln. (node ln, level ln)) (nodes L) = depths T 0
     \<and> (\<forall>ln \<in> set (nodes L). x ln = of_nat (level ln) * HORIZONTAL_SEPARATION)
     \<and> (\<forall>a \<in> set (nodes L). \<forall>b \<in> set (nodes L). level a = level b \<longrightarrow> x a = x b)
     \<and> (\<exists>ln \<in> set (nodes L). node ln = T \<and> level ln = 0 \<and> x ln = 0)"
proof -
  let ?ns = "laid (pass1 T) T 0 0"
  obtain L where cl: "computeLayout T = Inr L" and nl: "nodes L = ?ns"
    by (simp add: computeLayout_eq)
  have a: "map (\<lambda>ln. (node ln, level ln)) (nodes L) = depths T 0"
    unfolding nl by (rule laid_depths)
  have b: "\<forall>ln \<in> set (nodes L). x ln = of_nat (level ln) * HORIZONTAL_SEPARATION"
    unfolding nl by (rule laid_x)
  have c: "\<forall>a \<in> set (nodes L). \<forall>b \<in> set (nodes L). level a = level b \<longrightarrow> x a = x b"
  proof (intro ballI impI)
    fix a b assume "a \<in> set (nodes L)" "b \<in> set (nodes L)" "level a = level b"
    with b have "x a = of_nat (level b) * HORIZONTAL_SEPARATION"
      and "x b = of_nat (level b) * HORIZONTAL_SEPARATION" by auto
    then show "x a = x b" by simp
  qed
  have l: "last ?ns \<in> set ?ns" "node (last ?ns) = T" "level (last ?ns) = 0"
    using root_last[of "pass1 T" T 0 0] by auto
  have "x (last ?ns) = 0" using b l(1,3) unfolding nl by simp
  with l have d: "\<exists>ln \<in> set (nodes L). node ln = T \<and> level ln = 0 \<and> x ln = 0"
    unfolding nl by blast
  from cl a b c d show ?thesis by blast
qed

text \<open>
  Identity, level and \<open>x\<close> of the positioned nodes of the unbalanced sample
  tree.
\<close>

theorem C8_columns_witness:
  "map (\<lambda>ln. (ref (node ln), level ln, x ln)) (nodes (projr (computeLayout unbalanced)))
     = [(1, 1, 220), (3, 2, 440), (4, 2, 440), (5, 2, 440), (2, 1, 220), (0, 0, 0)]"
proof -
  from C8_columns[of unbalanced] obtain L where
    cl: "computeLayout unbalanced = Inr L"
    and d: "map (\<lambda>ln. (node ln, level ln)) (nodes L) = depths unbalanced 0"
    and xs: "\<forall>ln \<in> set (nodes L). x ln = of_nat (level ln) * HORIZONTAL_SEPARATION"
    by blast
  have "map (\<lambda>ln. (ref (node ln), level ln, x ln)) (nodes L)
      = map (\<lambda>ln. (ref (node ln), level ln, of_nat (level ln) * HORIZONTAL_SEPARATION)) (nodes L)"
    using xs by simp
  also have "\<dots> = map (\<lambda>(n, l). (ref n, l, of_nat l * HORIZONTAL_SEPARATION))
                      (map (\<lambda>ln. (node ln, level ln)) (nodes L))"
    by simp
  also have "\<dots> = [(1, 1, 220), (3, 2, 440), (4, 2, 440), (5, 2, 440), (2, 1, 220), (0, 0, 0)]"
    unfolding d by (simp add: unbalanced_def HORIZONTAL_SEPARATION_def)
  finally show ?thesis using cl by simp
qed

text \<open>
  Claim C9: in a tree without shared nodes, for every node P of the tree and every child C
  of P the list of links holds exactly one link with source \<open>(P.x + NODE_WIDTH, P.y)\<close> and
  target \<open>(C.x, C.y)\<close>, the coordinates being those of the positioned nodes of P and C.
\<close>

theorem C9_links:
  assumes "unshared T" and "P \<in> set (postorder T)" and "C \<in> set (kids P)"
  shows "\<exists>L p c. computeLayout T = Inr L
      \<and> findNode (nodes L) P = Some p \<and> node p = P
      \<and> findNode (nodes L) C = Some c \<and> node c = C
      \<and> count_list (links L)
           \<lparr>source = \<lparr>pt_x = x p + NODE_WIDTH, pt_y = y p\<rparr>,
            target = \<lparr>pt_x = x c, pt_y = y c\<rparr>\<rparr> = 1"
proof -
  let ?ns = "laid (pass1 T) T 0 0"
  let ?K = "concat (map kids (postorder T))"
  let ?f = "\<lambda>ch. \<lparr>pt_x = x (the (findNode ?ns ch)), pt_y = y (the (findNode ?ns ch))\<rparr>"
  have n: "map node ?ns = postorder T" by (rule laid_nodes)
  have d: "distinct (map (\<lambda>q. ref (node q)) ?ns)"
    using arg_cong[OF n, of "map ref"] assms(1) by (simp add: unshared_def comp_def)
  have s: "sorted_wrt (\<lambda>a b. \<not> boxesIntersect a b) ?ns"
    using laid_sep(1)[of T "pass1 T" 0 0] pass1_ok[OF assms(1)] by blast
  \<comment> \<open>every node of the tree is found, and what is found is its own positioned node\<close>
  have found: "\<exists>q. findNode ?ns ch = Some q \<and> q \<in> set ?ns \<and> node q = ch"
    if "ch \<in> set (postorder T)" for ch
  proof -
    from that n obtain q where q: "q \<in> set ?ns" "node q = ch"
      by (metis (no_types, lifting) image_iff set_map)
    with findNode_unique[OF d q(1)] show ?thesis by auto
  qed
  have Ksub: "set ?K \<subseteq> set (postorder T)"
    using kids_in_postorder(1)[of _ T] by auto
  have all: "\<forall>src \<in> set ?ns. \<forall>ch \<in> set (kids (node src)). \<exists>tgt. findNode ?ns ch = Some tgt"
  proof (intro ballI)
    fix src ch assume "src \<in> set ?ns" "ch \<in> set (kids (node src))"
    then have "node src \<in> set (postorder T)" using n by (metis image_eqI set_map)
    with \<open>ch \<in> set (kids (node src))\<close> have "ch \<in> set (postorder T)"
      using kids_in_postorder(1)[of "node src" T] by auto
    from found[OF this] show "\<exists>tgt. findNode ?ns ch = Some tgt" by blast
  qed
  have tg: "map target (createLinks ?ns) = map ?f ?K"
    using links_targets[OF all] n by simp
  have dK: "distinct ?K"
    using distinct_kids[of T] assms(1) by (auto simp: unshared_def distinct_map)
  have inj: "inj_on ?f (set ?K)"
  proof (rule inj_onI)
    fix a b assume a: "a \<in> set ?K" and b: "b \<in> set ?K" and e: "?f a = ?f b"
    from found a Ksub obtain qa where qa: "findNode ?ns a = Some qa" "qa \<in> set ?ns" "node qa = a"
      by blast
    from found b Ksub obtain qb where qb: "findNode ?ns b = Some qb" "qb \<in> set ?ns" "node qb = b"
      by blast
    from e qa qb have "x qa = x qb" "y qa = y qb" by auto
    then have bi: "boxesIntersect qa qb" by (rule boxesIntersect_same_place)
    have "qa = qb"
    proof (rule ccontr)
      assume "qa \<noteq> qb"
      with sorted_wrt_sym_neq[OF s _ qa(2) qb(2)] have "\<not> boxesIntersect qa qb"
        by (simp add: boxesIntersect_sym)
      with bi show False by simp
    qed
    with qa qb show "a = b" by simp
  qed
  have "distinct (map target (createLinks ?ns))"
    unfolding tg using dK inj by (simp add: distinct_map)
  then have dl: "distinct (createLinks ?ns)" by (simp add: distinct_map)
  from found[OF assms(2)] obtain p where p: "findNode ?ns P = Some p" "p \<in> set ?ns" "node p = P"
    by blast
  have "C \<in> set (postorder T)" using assms(2,3) kids_in_postorder(1)[of P T] by auto
  from found[OF this] obtain c where c: "findNode ?ns C = Some c" "c \<in> set ?ns" "node c = C"
    by blast
  have "linkOf p c \<in> set (linksFrom ?ns p)"
    using assms(3) p c unfolding linksFrom_def by force
  with p have "linkOf p c \<in> set (createLinks ?ns)"
    unfolding createLinks_concat by auto
  with dl have "count_list (createLinks ?ns) (linkOf p c) = 1"
    by (rule distinct_count_list_one)
  then have cnt: "count_list (createLinks ?ns)
           \<lparr>source = \<lparr>pt_x = x p + NODE_WIDTH, pt_y = y p\<rparr>,
            target = \<lparr>pt_x = x c, pt_y = y c\<rparr>\<rparr> = 1"
    by (simp add: linkOf_def)
  have "computeLayout T = Inr \<lparr>nodes = ?ns, links = createLinks ?ns,
          width = Max (set (map x ?ns)) + NODE_WIDTH + 40,
          height = of_nat (leafCount T) * slot + 40\<rparr>" by (rule computeLayout_eq)
  with p c cnt show ?thesis by fastforce
qed

text \<open>
  The link from \<open>child2\<close> to \<open>g2\<close> in the unbalanced sample tree.
\<close>

theorem C9_links_witness:
  "unshared unbalanced
   \<and> (\<exists>L p c. computeLayout unbalanced = Inr L
        \<and> findNode (nodes L)
             (MindMapNode 2 ''child2''
                (Some [MindMapNode 3 ''g1'' (Some []), MindMapNode 4 ''g2'' None,
                       MindMapNode 5 ''g3'' None])) = Some p
        \<and> findNode (nodes L) (MindMapNode 4 ''g2'' None) = Some c
        \<and> count_list (links L)
             \<lparr>source = \<lparr>pt_x = x p + NODE_WIDTH, pt_y = y p\<rparr>,
              target = \<lparr>pt_x = x c, pt_y = y c\<rparr>\<rparr> = 1)"
proof -
  let ?c2 = "MindMapNode 2 ''child2''
                (Some [MindMapNode 3 ''g1'' (Some []), MindMapNode 4 ''g2'' None,
                       MindMapNode 5 ''g3'' None])"
  have a: "?c2 \<in> set (postorder unbalanced)" by (simp add: unbalanced_def)
  have b: "MindMapNode 4 ''g2'' None \<in> set (kids ?c2)" by (simp add: kids_def)
  from C9_links[OF unshared_unbalanced a b] unshared_unbalanced show ?thesis by blast
qed

text \<open>
  Claim C10: the height pass 1 returns for a node, whatever map it starts from, is the
  number of leaves of its subtree times \<open>NODE_HEIGHT + VERTICAL_SEPARATION\<close>; in a tree
  without shared nodes this is also the height the map holds for every node after pass 1;
  the canvas height is that of the root plus 40.
\<close>

theorem C10_leaf_count:
  "fst (calculateInitialY n m) = of_nat (leafCount n) * (NODE_HEIGHT + VERTICAL_SEPARATION)
   \<and> (\<exists>L. computeLayout n = Inr L
          \<and> height L = of_nat (leafCount n) * (NODE_HEIGHT + VERTICAL_SEPARATION) + 40)
   \<and> (unshared T \<and> c \<in> set (postorder T) \<longrightarrow>
        map_option subtreeHeight (snd (calculateInitialY T Map.empty) (ref c))
          = Some (of_nat (leafCount c) * (NODE_HEIGHT + VERTICAL_SEPARATION)))"
proof (intro conjI impI)
  show "fst (calculateInitialY n m) = of_nat (leafCount n) * (NODE_HEIGHT + VERTICAL_SEPARATION)"
    by (simp add: calculateInitialY_value slot_def)
  show "\<exists>L. computeLayout n = Inr L
          \<and> height L = of_nat (leafCount n) * (NODE_HEIGHT + VERTICAL_SEPARATION) + 40"
    by (simp add: computeLayout_eq slot_def)
  assume "unshared T \<and> c \<in> set (postorder T)"
  then have "fold enter (postorder T) Map.empty (ref c)
      = Some \<lparr>info_y = 0, subtreeHeight = of_nat (leafCount c) * slot\<rparr>"
    by (intro fold_enter_lookup) (auto simp: unshared_def)
  then show "map_option subtreeHeight (snd (calculateInitialY T Map.empty) (ref c))
          = Some (of_nat (leafCount c) * (NODE_HEIGHT + VERTICAL_SEPARATION))"
    by (simp add: calculateInitialY_map slot_def)
qed

text \<open>
  The unbalanced sample tree has four leaves, and the subtree of \<open>child2\<close> has
  three.
\<close>

theorem C10_leaf_count_witness:
  "unshared unbalanced
   \<and> fst (calculateInitialY unbalanced Map.empty) = 400
   \<and> height (projr (computeLayout unbalanced)) = 440
   \<and> map_option subtreeHeight
        (snd (calculateInitialY unbalanced Map.empty) 2) = Some 300"
proof -
  have u: "unshared unbalanced" by (simp add: unshared_def unbalanced_def)
  have l: "leafCount unbalanced = 4" by (simp add: unbalanced_def)
  let ?c = "MindMapNode 2 ''child2''
                (Some [MindMapNode 3 ''g1'' (Some []), MindMapNode 4 ''g2'' None,
                       MindMapNode 5 ''g3'' None])"
  have c: "?c \<in> set (postorder unbalanced)" by (simp add: unbalanced_def)
  from C10_leaf_count[of unbalanced Map.empty unbalanced ?c] u c l show ?thesis
    by (auto simp: NODE_HEIGHT_def VERTICAL_SEPARATION_def)
qed

end
